theory Spec2Isabelle
  imports Complex_Main
begin

section \<open>Values and tokens of the LP file reader\<close>

text \<open>
  The reader of \<^verbatim>\<open>extern/filereaderlp/reader.cpp\<close> turns the text of an LP file into a
  \<^verbatim>\<open>Model\<close>.  A C++ \<^verbatim>\<open>double\<close> is one of a finite number, the two infinities and
  not-a-number.  A finite double is the real number it stands for; copying, negating
  and comparing with a constant, which is all the reader does with a number besides
  the one addition below, are exact on them.
\<close>

datatype double = DVal real | PosInf | NegInf | NaN

fun dneg :: "double \<Rightarrow> double" where
  "dneg (DVal r) = DVal (- r)"
| "dneg PosInf = NegInf"
| "dneg NegInf = PosInf"
| "dneg NaN = NaN"

text \<open>
  The sum of two doubles is rounded and may overflow to an infinity.  The reader adds
  doubles in one place only, where the expression parser accumulates the constant
  offset of an expression; that addition is the argument \<open>fadd\<close> of the parser and of
  the processors that call it, and nothing is assumed about it.
\<close>

type_synonym addition = "double \<Rightarrow> double \<Rightarrow> double"

text \<open>
  \<^verbatim>\<open>struct RawToken\<close>: the tag \<^verbatim>\<open>RawTokenType\<close> with the string of a \<^verbatim>\<open>STR\<close> and the
  number of a \<^verbatim>\<open>CONS\<close>.  The struct keeps stale payloads under the other tags; the
  reader never looks at them.
\<close>

datatype RawToken =
    RawNONE
  | is_STR: RawSTR (svalue: string)
  | is_CONS: RawCONS (dvalue: double)
  | RawLESS
  | RawGREATER
  | RawEQUAL
  | RawCOLON
  | RawLNEND
  | RawFLEND
  | RawBRKOP
  | RawBRKCL
  | RawPLUS
  | RawMINUS
  | RawHAT
  | RawSLASH
  | RawASTERISK

datatype LpSectionKeyword = NONE | OBJMIN | OBJMAX | CON | BOUNDS | GEN | BIN | SEMI | SOS | END

datatype SosType = SOS1 | SOS2

datatype LpComparisonType = LEQ | L | EQ | G | GEQ

text \<open>
  \<^verbatim>\<open>struct ProcessedToken\<close>: the tag \<^verbatim>\<open>ProcessedTokenType\<close> and the union member that
  belongs to it.  \<^verbatim>\<open>it->type == ProcessedTokenType::VARID\<close> is \<open>is_VARID\<close> here.  The tag
  \<^verbatim>\<open>CONST\<close> is the constructor \<open>CONSTVAL\<close> and the tag \<^verbatim>\<open>NONE\<close> is \<open>PNONE\<close>: the plain names
  are taken.
\<close>

datatype ProcessedToken =
    PNONE
  | is_SECID: SECID (tok_keyword: LpSectionKeyword)
  | is_VARID: VARID (tok_name: string)
  | is_CONID: CONID (tok_name: string)
  | is_CONST: CONSTVAL (tok_value: double)
  | is_FREE: FREE
  | is_BRKOP: BRKOP
  | is_BRKCL: BRKCL
  | is_COMP: COMP (tok_dir: LpComparisonType)
  | LNEND
  | is_SLASH: SLASH
  | is_ASTERISK: ASTERISK
  | is_HAT: HAT
  | is_SOSTYPE: SOSTYPE (tok_sostype: SosType)

text \<open>
  Modelled from the spec: the macro \<^verbatim>\<open>lpassert\<close> of \<^verbatim>\<open>def.hpp\<close> is not among the
  sources.  A failed \<^verbatim>\<open>lpassert\<close> aborts the whole read; the error categories are the
  ones the specification lists.  \<open>MalformedSection\<close> stands for the failed checks the
  specification gives no category for, \<open>InvalidRead\<close> for a read through an iterator
  or an index that points outside its container (undefined behaviour in the source),
  and \<open>AssertionFailed\<close> for a failed \<^verbatim>\<open>assert\<close>.
\<close>

datatype error =
    UnexpectedCharacter
  | UnknownToken
  | DuplicateSection
  | UnexpectedEndOfSection
  | MalformedExpression
  | MalformedBound
  | MalformedSpecialOrderedSetEntry
  | MalformedSection
  | InvalidRead
  | AssertionFailed

section \<open>The section splitter\<close>

text \<open>
  \<^verbatim>\<open>sectiontokens\<close> maps a section keyword to a pair of iterators into
  \<^verbatim>\<open>processedtokens\<close>; an iterator is the index it points at.  \<^verbatim>\<open>operator[]\<close> creates a
  missing entry with two value-initialised iterators, which compare equal: \<open>(0, 0)\<close>.
\<close>

type_synonym sectionmap = "LpSectionKeyword \<rightharpoonup> nat \<times> nat"

definition entry :: "sectionmap \<Rightarrow> LpSectionKeyword \<Rightarrow> nat \<times> nat" where
  "entry m k = (case m k of None \<Rightarrow> (0, 0) | Some p \<Rightarrow> p)"

definition set_first :: "sectionmap \<Rightarrow> LpSectionKeyword \<Rightarrow> nat \<Rightarrow> sectionmap" where
  "set_first m k i = m(k \<mapsto> (i, snd (entry m k)))"

definition set_second :: "sectionmap \<Rightarrow> LpSectionKeyword \<Rightarrow> nat \<Rightarrow> sectionmap" where
  "set_second m k i = m(k \<mapsto> (fst (entry m k), i))"

text \<open>
  The \<^verbatim>\<open>for\<close> loop of \<^verbatim>\<open>Reader::splittokens\<close>, from the iterator \<open>it\<close> on, with the
  local \<^verbatim>\<open>currentsection\<close> and the map as its state.
\<close>

function splitloop ::
  "ProcessedToken list \<Rightarrow> nat \<Rightarrow> LpSectionKeyword \<times> sectionmap
     \<Rightarrow> error + (LpSectionKeyword \<times> sectionmap)" where
  "splitloop toks it (currentsection, m) =
     (if \<not> it < length toks then Inr (currentsection, m)
      else if is_SECID (toks ! it) then
        (let m1 = (if currentsection \<noteq> NONE then set_second m currentsection it else m);
             cur = tok_keyword (toks ! it)
         in if m1 cur \<noteq> None then Inl DuplicateSection
            else if it + 1 = length toks \<or> is_SECID (toks ! (it + 1))
              then splitloop toks (it + 1) (NONE, m1)
            else splitloop toks (it + 1) (cur, set_first m1 cur (it + 1)))
      else splitloop toks (it + 1) (currentsection, m))"
  by pat_completeness auto
termination
  by (relation "measure (\<lambda>(toks, it, s). length toks - it)") auto

declare splitloop.simps [simp del]

definition splittokens :: "ProcessedToken list \<Rightarrow> error + sectionmap" where
  "splittokens toks =
     (case splitloop toks 0 (NONE, Map.empty) of
        Inl e \<Rightarrow> Inl e
      | Inr (currentsection, m) \<Rightarrow>
          Inr (if currentsection \<noteq> NONE then set_second m currentsection (length toks) else m))"

section \<open>The model under construction\<close>

text \<open>
  Modelled from the spec: \<^verbatim>\<open>model.hpp\<close> and \<^verbatim>\<open>builder.hpp\<close> are not among the sources.
  The structs and their defaults follow the specification's data model: a \<^verbatim>\<open>Variable\<close>
  starts continuous with bounds \<open>[0, +\<infinity>)\<close>, an \<^verbatim>\<open>Expression\<close> starts empty with offset
  zero, and the bounds of a \<^verbatim>\<open>Constraint\<close> start at \<open>-\<infinity>\<close> and \<open>+\<infinity>\<close>.  The source shares
  each \<^verbatim>\<open>Variable\<close> through a \<^verbatim>\<open>shared_ptr\<close>; there is one object per name, so the
  builder's map is the store and the pointer a term or a set entry holds is the name
  the variable is registered under.
\<close>

datatype VariableType = CONTINUOUS | BINARY | GENERAL | SEMICONTINUOUS | SEMIINTEGER

datatype ObjectiveSense = SenseMIN | SenseMAX

record Variable =
  var_type :: VariableType
  var_lowerbound :: double
  var_upperbound :: double
  var_name :: string

record LinTerm =
  lin_coef :: double
  lin_var :: string

record QuadTerm =
  quad_coef :: double
  quad_var1 :: string
  quad_var2 :: string

record Expression =
  linterms :: "LinTerm list"
  quadterms :: "QuadTerm list"
  offset :: double
  expr_name :: string

record Constraint =
  con_lowerbound :: double
  con_upperbound :: double
  con_expr :: Expression

record SOS =
  sos_name :: string
  sos_type :: nat
  sos_entries :: "(string \<times> double) list"

record Model =
  objective :: Expression
  sense :: ObjectiveSense
  constraints :: "Constraint list"
  variables :: "string list"
  soss :: "SOS list"

record Builder =
  b_variables :: "string \<rightharpoonup> Variable"
  model :: Model

definition new_Variable :: "string \<Rightarrow> Variable" where
  "new_Variable n =
     \<lparr>var_type = CONTINUOUS, var_lowerbound = DVal 0, var_upperbound = PosInf, var_name = n\<rparr>"

definition new_Expression :: Expression where
  "new_Expression = \<lparr>linterms = [], quadterms = [], offset = DVal 0, expr_name = []\<rparr>"

definition new_Constraint :: Constraint where
  "new_Constraint =
     \<lparr>con_lowerbound = NegInf, con_upperbound = PosInf, con_expr = new_Expression\<rparr>"

text \<open>
  Modelled from the spec: the model is constructed empty.  The initial value of the
  objective sense is declared in \<^verbatim>\<open>model.hpp\<close>, which is not among the sources; it is the
  argument here.  The objective is a pointer that \<^verbatim>\<open>processobjsec\<close>, the first processor
  to touch the model, sets to a new expression before anything reads it; the initial
  model has the empty expression in its place.
\<close>

definition new_Builder :: "ObjectiveSense \<Rightarrow> Builder" where
  "new_Builder sns =
     \<lparr>b_variables = Map.empty,
      model = \<lparr>objective = new_Expression, sense = sns, constraints = [], variables = [],
               soss = []\<rparr>\<rparr>"

text \<open>
  Modelled from the spec: \<^verbatim>\<open>Builder::getvarbyname\<close> returns the variable registered
  under the name, or creates it with the defaults and registers it, keeping the order
  of first reference.
\<close>

definition getvarbyname :: "Builder \<Rightarrow> string \<Rightarrow> Variable \<times> Builder" where
  "getvarbyname b n =
     (case b_variables b n of
        Some v \<Rightarrow> (v, b)
      | None \<Rightarrow>
          (new_Variable n,
           b\<lparr>b_variables := (b_variables b)(n \<mapsto> new_Variable n),
             model := (model b)\<lparr>variables := variables (model b) @ [n]\<rparr>\<rparr>))"

text \<open>An assignment through the shared pointer \<^verbatim>\<open>var\<close>: the store gets the new value.\<close>

definition setvar :: "Builder \<Rightarrow> string \<Rightarrow> Variable \<Rightarrow> Builder" where
  "setvar b n v = b\<lparr>b_variables := (b_variables b)(n \<mapsto> v)\<rparr>"

text \<open>
  The members of \<^verbatim>\<open>class Reader\<close> that the section processors use.  A processor works
  on the range \<open>[begin, end)\<close> its section has in \<^verbatim>\<open>sectiontokens\<close>.  The splitter only
  records ranges that lie inside the token vector; on any other range the source reads
  outside the vector, which is \<open>InvalidRead\<close> here as soon as a token of the range is
  looked at.
\<close>

record Reader =
  processedtokens :: "ProcessedToken list"
  sectiontokens :: sectionmap
  builder :: Builder

definition in_range :: "ProcessedToken list \<Rightarrow> nat \<Rightarrow> nat \<Rightarrow> bool" where
  "in_range toks sec_end it = (it < sec_end \<and> sec_end \<le> length toks)"

section \<open>The expression parser\<close>

text \<open>
  The body of the inner \<^verbatim>\<open>while\<close> loop of \<^verbatim>\<open>Reader::parseexpression\<close>, which reads the
  terms of a bracketed quadratic group: the four patterns in the order of the source.
  \<open>Inr (Some s)\<close> is \<^verbatim>\<open>continue\<close> with the new iterator, expression and builder,
  \<open>Inr None\<close> is the \<^verbatim>\<open>break\<close> at a token that starts no term, and \<open>Inl\<close> a failed
  \<^verbatim>\<open>lpassert\<close>.
\<close>

definition parsequadterm ::
  "ProcessedToken list \<Rightarrow> nat \<Rightarrow> nat \<Rightarrow> Expression \<Rightarrow> Builder
     \<Rightarrow> error + (nat \<times> Expression \<times> Builder) option" where
  "parsequadterm toks sec_end it expr b =
     (let next1 = it + 1;
          next2 = (if next1 \<noteq> sec_end then it + 2 else it + 1);
          next3 = (if next1 \<noteq> sec_end then (if next2 \<noteq> sec_end then it + 3 else it + 2)
                   else it + 1)
      in
        if next3 \<noteq> sec_end \<and> is_CONST (toks ! it) \<and> is_VARID (toks ! next1)
           \<and> is_HAT (toks ! next2) \<and> is_CONST (toks ! next3) then
          (let n = tok_name (toks ! next1) in
           if tok_value (toks ! next3) \<noteq> DVal 2 then Inl MalformedExpression
           else
             (let (v1, b1) = getvarbyname b n;
                  (v2, b2) = getvarbyname b1 n;
                  quadterm = \<lparr>quad_coef = tok_value (toks ! it), quad_var1 = n, quad_var2 = n\<rparr>
              in Inr (Some (next3 + 1, expr\<lparr>quadterms := quadterms expr @ [quadterm]\<rparr>, b2))))
        else if next2 \<noteq> sec_end \<and> is_VARID (toks ! it) \<and> is_HAT (toks ! next1)
           \<and> is_CONST (toks ! next2) then
          (let n = tok_name (toks ! it) in
           if tok_value (toks ! next2) \<noteq> DVal 2 then Inl MalformedExpression
           else
             (let (v1, b1) = getvarbyname b n;
                  (v2, b2) = getvarbyname b1 n;
                  quadterm = \<lparr>quad_coef = DVal 1, quad_var1 = n, quad_var2 = n\<rparr>
              in Inr (Some (next3, expr\<lparr>quadterms := quadterms expr @ [quadterm]\<rparr>, b2))))
        else if next3 \<noteq> sec_end \<and> is_CONST (toks ! it) \<and> is_VARID (toks ! next1)
           \<and> is_ASTERISK (toks ! next2) \<and> is_VARID (toks ! next3) then
          (let name1 = tok_name (toks ! next1);
               name2 = tok_name (toks ! next3);
               (v1, b1) = getvarbyname b name1;
               (v2, b2) = getvarbyname b1 name2;
               quadterm = \<lparr>quad_coef = tok_value (toks ! it),
                           quad_var1 = name1, quad_var2 = name2\<rparr>
           in Inr (Some (next3 + 1, expr\<lparr>quadterms := quadterms expr @ [quadterm]\<rparr>, b2)))
        else if next2 \<noteq> sec_end \<and> is_VARID (toks ! it) \<and> is_ASTERISK (toks ! next1)
           \<and> is_VARID (toks ! next2) then
          (let name1 = tok_name (toks ! it);
               name2 = tok_name (toks ! next2);
               (v1, b1) = getvarbyname b name1;
               (v2, b2) = getvarbyname b1 name2;
               quadterm = \<lparr>quad_coef = DVal 1, quad_var1 = name1, quad_var2 = name2\<rparr>
           in Inr (Some (next3, expr\<lparr>quadterms := quadterms expr @ [quadterm]\<rparr>, b2)))
        else Inr None)"

lemma parsequadterm_gt:
  "parsequadterm toks sec_end it expr b = Inr (Some (it', expr', b')) \<Longrightarrow> it < it'"
  unfolding parsequadterm_def Let_def
  by (simp split: if_splits prod.splits)

text \<open>
  The inner loop \<^verbatim>\<open>while (it != end && it->type != BRKCL)\<close>: it stops at the closing
  bracket, at the end of the range or at the \<^verbatim>\<open>break\<close>.
\<close>

function parsequad ::
  "ProcessedToken list \<Rightarrow> nat \<Rightarrow> nat \<times> Expression \<times> Builder
     \<Rightarrow> error + (nat \<times> Expression \<times> Builder)" where
  "parsequad toks sec_end (it, expr, b) =
     (if it = sec_end then Inr (it, expr, b)
      else if \<not> in_range toks sec_end it then Inl InvalidRead
      else if is_BRKCL (toks ! it) then Inr (it, expr, b)
      else
        (case parsequadterm toks sec_end it expr b of
           Inl e \<Rightarrow> Inl e
         | Inr None \<Rightarrow> Inr (it, expr, b)
         | Inr (Some s) \<Rightarrow> parsequad toks sec_end s))"
  by pat_completeness auto
termination
proof (relation "measure (\<lambda>(toks, sec_end, it, s). length toks - it)", goal_cases)
  case 1
  show ?case by simp
next
  case (2 toks sec_end it expr b x s)
  obtain it' expr' b' where s: "s = (it', expr', b')" by (cases s)
  from 2(2) have "it < length toks" by (simp add: in_range_def)
  moreover have "it < it'"
    using 2(4,5) s parsequadterm_gt [of toks sec_end it expr b it' expr' b'] by simp
  ultimately show ?case using s by simp
qed

declare parsequad.simps [simp del]

lemma parsequad_ge:
  "parsequad toks sec_end (it, expr, b) = Inr (it', expr', b') \<Longrightarrow> it \<le> it'"
proof (induction "length toks - it" arbitrary: it expr b rule: less_induct)
  case less
  show ?case
  proof (cases "it = sec_end \<or> \<not> in_range toks sec_end it \<or> is_BRKCL (toks ! it)")
    case True
    with less.prems show ?thesis
      by (subst (asm) parsequad.simps) (auto split: if_splits)
  next
    case False
    then have lt: "it < length toks" by (simp add: in_range_def)
    from False less.prems have r:
      "(case parsequadterm toks sec_end it expr b of
           Inl e \<Rightarrow> Inl e
         | Inr None \<Rightarrow> Inr (it, expr, b)
         | Inr (Some s) \<Rightarrow> parsequad toks sec_end s) = Inr (it', expr', b')"
      by (subst (asm) parsequad.simps) simp
    show ?thesis
    proof (cases "parsequadterm toks sec_end it expr b")
      case (Inl e)
      with r show ?thesis by simp
    next
      case (Inr o1)
      show ?thesis
      proof (cases o1)
        case None
        with r Inr show ?thesis by simp
      next
        case (Some s)
        obtain j expr1 b1 where s: "s = (j, expr1, b1)" by (cases s)
        have "it < j"
          using Inr Some s by (auto dest: parsequadterm_gt)
        moreover have "j \<le> it'"
          using less.hyps [of j expr1 b1] r Inr Some s lt \<open>it < j\<close> by simp
        ultimately show ?thesis by simp
      qed
    qed
  qed
qed

text \<open>
  What follows the inner loop: in the objective the closing bracket has to be followed
  by \<^verbatim>\<open>/ 2.0\<close>; elsewhere the closing bracket alone ends the group.  The result is the
  iterator after the group.
\<close>

definition closegroup :: "ProcessedToken list \<Rightarrow> nat \<Rightarrow> bool \<Rightarrow> nat \<Rightarrow> error + nat" where
  "closegroup toks sec_end isobj it =
     (if isobj then
        (let next1 = it + 1;
             next2 = (if next1 \<noteq> sec_end then it + 2 else it + 1)
         in if \<not> next2 \<noteq> sec_end then Inl MalformedExpression
            else if \<not> it < length toks then Inl InvalidRead
            else if \<not> is_BRKCL (toks ! it) then Inl MalformedExpression
            else if \<not> next1 < length toks then Inl InvalidRead
            else if \<not> is_SLASH (toks ! next1) then Inl MalformedExpression
            else if \<not> next2 < length toks then Inl InvalidRead
            else if \<not> is_CONST (toks ! next2) then Inl MalformedExpression
            else if \<not> tok_value (toks ! next2) = DVal 2 then Inl MalformedExpression
            else Inr (next2 + 1))
      else
        (if \<not> it \<noteq> sec_end then Inl MalformedExpression
         else if \<not> it < length toks then Inl InvalidRead
         else if \<not> is_BRKCL (toks ! it) then Inl MalformedExpression
         else Inr (it + 1)))"

lemma closegroup_gt: "closegroup toks sec_end isobj it = Inr it' \<Longrightarrow> it < it'"
  by (auto simp: closegroup_def Let_def split: if_splits)

text \<open>
  The body of the outer \<^verbatim>\<open>while\<close> loop of \<^verbatim>\<open>Reader::parseexpression\<close>: a constant
  with a variable, a constant, a variable, or a bracketed quadratic group, in the order
  of the source; \<open>Inr None\<close> is the final \<^verbatim>\<open>break\<close>.
\<close>

definition parseterm ::
  "addition \<Rightarrow> ProcessedToken list \<Rightarrow> nat \<Rightarrow> bool \<Rightarrow> nat \<Rightarrow> Expression \<Rightarrow> Builder
     \<Rightarrow> error + (nat \<times> Expression \<times> Builder) option" where
  "parseterm fadd toks sec_end isobj it expr b =
     (let next = it + 1 in
        if next \<noteq> sec_end \<and> is_CONST (toks ! it) \<and> is_VARID (toks ! next) then
          (let n = tok_name (toks ! next);
               (v, b1) = getvarbyname b n;
               linterm = \<lparr>lin_coef = tok_value (toks ! it), lin_var = n\<rparr>
           in Inr (Some (it + 2, expr\<lparr>linterms := linterms expr @ [linterm]\<rparr>, b1)))
        else if is_CONST (toks ! it) then
          Inr (Some (it + 1, expr\<lparr>offset := fadd (offset expr) (tok_value (toks ! it))\<rparr>, b))
        else if is_VARID (toks ! it) then
          (let n = tok_name (toks ! it);
               (v, b1) = getvarbyname b n;
               linterm = \<lparr>lin_coef = DVal 1, lin_var = n\<rparr>
           in Inr (Some (it + 1, expr\<lparr>linterms := linterms expr @ [linterm]\<rparr>, b1)))
        else if next \<noteq> sec_end \<and> is_BRKOP (toks ! it) then
          (case parsequad toks sec_end (it + 1, expr, b) of
             Inl e \<Rightarrow> Inl e
           | Inr (it1, expr1, b1) \<Rightarrow>
               (case closegroup toks sec_end isobj it1 of
                  Inl e \<Rightarrow> Inl e
                | Inr it2 \<Rightarrow> Inr (Some (it2, expr1, b1))))
        else Inr None)"

lemma parseterm_gt:
  assumes "parseterm fadd toks sec_end isobj it expr b = Inr (Some (it', expr', b'))"
  shows "it < it'"
proof (cases "\<not> is_CONST (toks ! it) \<and> \<not> is_VARID (toks ! it)
              \<and> it + 1 \<noteq> sec_end \<and> is_BRKOP (toks ! it)")
  case True
  with assms obtain it1 expr1 b1 where
      q: "parsequad toks sec_end (it + 1, expr, b) = Inr (it1, expr1, b1)"
      and c: "closegroup toks sec_end isobj it1 = Inr it'"
    by (auto simp: parseterm_def Let_def split: sum.splits)
  have "it + 1 \<le> it1" using q by (rule parsequad_ge)
  moreover have "it1 < it'" using c by (rule closegroup_gt)
  ultimately show ?thesis by simp
next
  case False
  with assms show ?thesis
    unfolding parseterm_def Let_def
    by (simp split: if_splits prod.splits)
qed

text \<open>The outer loop \<^verbatim>\<open>while (it != end)\<close> of \<^verbatim>\<open>Reader::parseexpression\<close>.\<close>

function parseloop ::
  "addition \<Rightarrow> ProcessedToken list \<Rightarrow> nat \<Rightarrow> bool \<Rightarrow> nat \<times> Expression \<times> Builder
     \<Rightarrow> error + (nat \<times> Expression \<times> Builder)" where
  "parseloop fadd toks sec_end isobj (it, expr, b) =
     (if it = sec_end then Inr (it, expr, b)
      else if \<not> in_range toks sec_end it then Inl InvalidRead
      else
        (case parseterm fadd toks sec_end isobj it expr b of
           Inl e \<Rightarrow> Inl e
         | Inr None \<Rightarrow> Inr (it, expr, b)
         | Inr (Some s) \<Rightarrow> parseloop fadd toks sec_end isobj s))"
  by pat_completeness auto
termination
proof (relation "measure (\<lambda>(fadd, toks, sec_end, isobj, it, s). length toks - it)", goal_cases)
  case 1
  show ?case by simp
next
  case (2 fadd toks sec_end isobj it expr b x s)
  obtain it' expr' b' where s: "s = (it', expr', b')" by (cases s)
  from 2(2) have "it < length toks" by (simp add: in_range_def)
  moreover have "it < it'"
    using 2(3,4) s parseterm_gt [of fadd toks sec_end isobj it expr b it' expr' b'] by simp
  ultimately show ?case using s by simp
qed

declare parseloop.simps [simp del]

lemma parseloop_ge:
  "parseloop fadd toks sec_end isobj (it, expr, b) = Inr (it', expr', b') \<Longrightarrow> it \<le> it'"
proof (induction "length toks - it" arbitrary: it expr b rule: less_induct)
  case less
  show ?case
  proof (cases "it = sec_end \<or> \<not> in_range toks sec_end it")
    case True
    with less.prems show ?thesis
      by (subst (asm) parseloop.simps) (auto split: if_splits)
  next
    case False
    then have lt: "it < length toks" by (simp add: in_range_def)
    from False less.prems have r:
      "(case parseterm fadd toks sec_end isobj it expr b of
           Inl e \<Rightarrow> Inl e
         | Inr None \<Rightarrow> Inr (it, expr, b)
         | Inr (Some s) \<Rightarrow> parseloop fadd toks sec_end isobj s) = Inr (it', expr', b')"
      by (subst (asm) parseloop.simps) simp
    show ?thesis
    proof (cases "parseterm fadd toks sec_end isobj it expr b")
      case (Inl e)
      with r show ?thesis by simp
    next
      case (Inr o1)
      show ?thesis
      proof (cases o1)
        case None
        with r Inr show ?thesis by simp
      next
        case (Some s)
        obtain j expr1 b1 where s: "s = (j, expr1, b1)" by (cases s)
        have "it < j"
          using Inr Some s by (auto dest: parseterm_gt)
        moreover have "j \<le> it'"
          using less.hyps [of j expr1 b1] r Inr Some s lt \<open>it < j\<close> by simp
        ultimately show ?thesis by simp
      qed
    qed
  qed
qed

definition parseexpression ::
  "addition \<Rightarrow> ProcessedToken list \<Rightarrow> nat \<Rightarrow> nat \<Rightarrow> Expression \<Rightarrow> bool \<Rightarrow> Builder
     \<Rightarrow> error + (nat \<times> Expression \<times> Builder)" where
  "parseexpression fadd toks it sec_end expr isobj b =
     (if it \<noteq> sec_end \<and> \<not> in_range toks sec_end it then Inl InvalidRead
      else if it \<noteq> sec_end \<and> is_CONID (toks ! it)
        then parseloop fadd toks sec_end isobj (it + 1, expr\<lparr>expr_name := tok_name (toks ! it)\<rparr>, b)
      else parseloop fadd toks sec_end isobj (it, expr, b))"

lemma parseexpression_ge:
  "parseexpression fadd toks it sec_end expr isobj b = Inr (it', expr', b') \<Longrightarrow> it \<le> it'"
  by (auto simp: parseexpression_def split: if_splits dest!: parseloop_ge)

section \<open>The section processors\<close>

text \<open>
  A processor that finds its section takes references to the two iterators of the
  entry and moves the first one forward; \<open>with_section\<close> runs such a loop on the
  entry of \<open>k\<close> and writes the iterator and the builder back.  \<open>sectiontokens[k]\<close> on a
  missing key creates the entry, as \<open>set_first\<close> does here.
\<close>

definition with_section ::
  "LpSectionKeyword \<Rightarrow> (ProcessedToken list \<Rightarrow> nat \<Rightarrow> nat \<times> Builder \<Rightarrow> error + (nat \<times> Builder))
     \<Rightarrow> Reader \<Rightarrow> error + Reader" where
  "with_section k loop r =
     (case loop (processedtokens r) (snd (entry (sectiontokens r) k))
             (fst (entry (sectiontokens r) k), builder r) of
        Inl e \<Rightarrow> Inl e
      | Inr (begin, b) \<Rightarrow>
          Inr (r\<lparr>sectiontokens := set_first (sectiontokens r) k begin, builder := b\<rparr>))"

definition processnonesec :: "Reader \<Rightarrow> error + Reader" where
  "processnonesec r = (if sectiontokens r NONE \<noteq> None then Inl MalformedSection else Inr r)"

text \<open>
  \<^verbatim>\<open>Reader::processobjsec\<close>.  The two branches of the source differ in the keyword and
  the sense only; \<open>objsec\<close> is their common text.
\<close>

definition objsec :: "addition \<Rightarrow> LpSectionKeyword \<Rightarrow> ObjectiveSense \<Rightarrow> Reader \<Rightarrow> error + Reader" where
  "objsec fadd k sns r =
     (let b = builder r;
          b1 = b\<lparr>model := (model b)\<lparr>sense := sns\<rparr>\<rparr>;
          sec = entry (sectiontokens r) k
      in case parseexpression fadd (processedtokens r) (fst sec) (snd sec)
                (objective (model b1)) True b1 of
           Inl e \<Rightarrow> Inl e
         | Inr (it, expr, b2) \<Rightarrow>
             if \<not> it = snd sec then Inl MalformedExpression
             else Inr (r\<lparr>sectiontokens := set_first (sectiontokens r) k it,
                        builder := b2\<lparr>model := (model b2)\<lparr>objective := expr\<rparr>\<rparr>\<rparr>))"

definition processobjsec :: "addition \<Rightarrow> Reader \<Rightarrow> error + Reader" where
  "processobjsec fadd r =
     (let b = builder r;
          r1 = r\<lparr>builder := b\<lparr>model := (model b)\<lparr>objective := new_Expression\<rparr>\<rparr>\<rparr>
      in if sectiontokens r1 OBJMIN \<noteq> None then objsec fadd OBJMIN SenseMIN r1
         else if sectiontokens r1 OBJMAX \<noteq> None then objsec fadd OBJMAX SenseMAX r1
         else Inr r1)"

text \<open>
  The body of the loop of \<^verbatim>\<open>Reader::processconsec\<close>: one constraint, which is an
  expression, a comparison and a right-hand side.
\<close>

definition processcon ::
  "addition \<Rightarrow> ProcessedToken list \<Rightarrow> nat \<Rightarrow> nat \<Rightarrow> Builder \<Rightarrow> error + (nat \<times> Builder)" where
  "processcon fadd toks sec_end begin b =
     (let con = new_Constraint in
      case parseexpression fadd toks begin sec_end (con_expr con) False b of
        Inl e \<Rightarrow> Inl e
      | Inr (it, expr, b1) \<Rightarrow>
          if \<not> it \<noteq> sec_end then Inl UnexpectedEndOfSection
          else if \<not> it < length toks then Inl InvalidRead
          else if \<not> is_COMP (toks ! it) then Inl MalformedSection
          else
            (let dir = tok_dir (toks ! it);
                 rhs = it + 1
             in if \<not> rhs \<noteq> sec_end then Inl UnexpectedEndOfSection
                else if \<not> rhs < length toks then Inl InvalidRead
                else if \<not> is_CONST (toks ! rhs) then Inl MalformedSection
                else
                  (case (case dir of
                           EQ \<Rightarrow> Inr (con\<lparr>con_expr := expr,
                                           con_lowerbound := tok_value (toks ! rhs),
                                           con_upperbound := tok_value (toks ! rhs)\<rparr>)
                         | LEQ \<Rightarrow> Inr (con\<lparr>con_expr := expr,
                                            con_upperbound := tok_value (toks ! rhs)\<rparr>)
                         | GEQ \<Rightarrow> Inr (con\<lparr>con_expr := expr,
                                            con_lowerbound := tok_value (toks ! rhs)\<rparr>)
                         | _ \<Rightarrow> Inl MalformedSection) of
                     Inl e \<Rightarrow> Inl e
                   | Inr con1 \<Rightarrow>
                       Inr (rhs + 1,
                            b1\<lparr>model := (model b1)
                                 \<lparr>constraints := constraints (model b1) @ [con1]\<rparr>\<rparr>))))"

lemma processcon_gt: "processcon fadd toks sec_end begin b = Inr (begin', b') \<Longrightarrow> begin < begin'"
  unfolding processcon_def Let_def
  by (auto split: sum.splits if_splits LpComparisonType.splits dest!: parseexpression_ge)

function consec_loop ::
  "addition \<Rightarrow> ProcessedToken list \<Rightarrow> nat \<Rightarrow> nat \<times> Builder \<Rightarrow> error + (nat \<times> Builder)" where
  "consec_loop fadd toks sec_end (begin, b) =
     (if begin = sec_end then Inr (begin, b)
      else if \<not> in_range toks sec_end begin then Inl InvalidRead
      else
        (case processcon fadd toks sec_end begin b of
           Inl e \<Rightarrow> Inl e
         | Inr s \<Rightarrow> consec_loop fadd toks sec_end s))"
  by pat_completeness auto
termination
proof (relation "measure (\<lambda>(fadd, toks, sec_end, begin, b). length toks - begin)", goal_cases)
  case 1
  show ?case by simp
next
  case (2 fadd toks sec_end it b s)
  obtain it' b' where s: "s = (it', b')" by (cases s)
  from 2(2) have "it < length toks" by (simp add: in_range_def)
  moreover have "it < it'"
    using 2(3) s processcon_gt [of fadd toks sec_end it b it' b'] by simp
  ultimately show ?case using s by simp
qed

declare consec_loop.simps [simp del]

definition processconsec :: "addition \<Rightarrow> Reader \<Rightarrow> error + Reader" where
  "processconsec fadd r =
     (if \<not> sectiontokens r CON \<noteq> None then Inr r else with_section CON (consec_loop fadd) r)"

text \<open>
  The body of the loop of \<^verbatim>\<open>Reader::processboundssec\<close>: one entry of the bounds
  section.  As in the source, \<open>next1\<close> is a copy of \<open>begin\<close> when the first pattern is
  tried and is moved on only after it.
\<close>

definition processbound ::
  "ProcessedToken list \<Rightarrow> nat \<Rightarrow> nat \<Rightarrow> Builder \<Rightarrow> error + (nat \<times> Builder)" where
  "processbound toks sec_end begin b =
     (let next1 = begin in
      if next1 \<noteq> sec_end \<and> is_VARID (toks ! begin) \<and> is_FREE (toks ! next1) then
        (let n = tok_name (toks ! begin);
             (var, b1) = getvarbyname b n
         in Inr (next1 + 1,
                 setvar b1 n (var\<lparr>var_lowerbound := NegInf, var_upperbound := PosInf\<rparr>)))
      else
        (let next1 = begin + 1;
             next2 = (if next1 \<noteq> sec_end then begin + 2 else begin + 1);
             next3 = (if next1 \<noteq> sec_end
                      then (if next2 \<noteq> sec_end then begin + 3 else begin + 2)
                      else begin + 1);
             next4 = (if next1 \<noteq> sec_end
                      then (if next2 \<noteq> sec_end
                            then (if next3 \<noteq> sec_end then begin + 4 else begin + 3)
                            else begin + 2)
                      else begin + 1)
         in
           if next4 \<noteq> sec_end \<and> is_CONST (toks ! begin) \<and> is_COMP (toks ! next1)
              \<and> is_VARID (toks ! next2) \<and> is_COMP (toks ! next3) \<and> is_CONST (toks ! next4) then
             (if \<not> tok_dir (toks ! next1) = LEQ then Inl MalformedBound
              else if \<not> tok_dir (toks ! next3) = LEQ then Inl MalformedBound
              else
                (let lb = tok_value (toks ! begin);
                     ub = tok_value (toks ! next4);
                     n = tok_name (toks ! next2);
                     (var, b1) = getvarbyname b n
                 in Inr (next4 + 1,
                         setvar b1 n (var\<lparr>var_lowerbound := lb, var_upperbound := ub\<rparr>))))
           else if next2 \<noteq> sec_end \<and> is_CONST (toks ! begin) \<and> is_COMP (toks ! next1)
              \<and> is_VARID (toks ! next2) then
             (let v = tok_value (toks ! begin);
                  n = tok_name (toks ! next2);
                  (var, b1) = getvarbyname b n;
                  dir = tok_dir (toks ! next1)
              in if \<not> (dir \<noteq> L \<and> dir \<noteq> G) then Inl MalformedBound
                 else
                   (case dir of
                      LEQ \<Rightarrow> Inr (next3, setvar b1 n (var\<lparr>var_lowerbound := v\<rparr>))
                    | GEQ \<Rightarrow> Inr (next3, setvar b1 n (var\<lparr>var_upperbound := v\<rparr>))
                    | EQ \<Rightarrow> Inr (next3, setvar b1 n
                                        (var\<lparr>var_lowerbound := v, var_upperbound := v\<rparr>))
                    | _ \<Rightarrow> Inl MalformedBound))
           else if next2 \<noteq> sec_end \<and> is_VARID (toks ! begin) \<and> is_COMP (toks ! next1)
              \<and> is_CONST (toks ! next2) then
             (let v = tok_value (toks ! next2);
                  n = tok_name (toks ! begin);
                  (var, b1) = getvarbyname b n;
                  dir = tok_dir (toks ! next1)
              in if \<not> (dir \<noteq> L \<and> dir \<noteq> G) then Inl MalformedBound
                 else
                   (case dir of
                      LEQ \<Rightarrow> Inr (next3, setvar b1 n (var\<lparr>var_upperbound := v\<rparr>))
                    | GEQ \<Rightarrow> Inr (next3, setvar b1 n (var\<lparr>var_lowerbound := v\<rparr>))
                    | EQ \<Rightarrow> Inr (next3, setvar b1 n
                                        (var\<lparr>var_lowerbound := v, var_upperbound := v\<rparr>))
                    | _ \<Rightarrow> Inl MalformedBound))
           else Inl MalformedBound))"

lemma processbound_gt:
  "processbound toks sec_end begin b = Inr (begin', b') \<Longrightarrow> begin < begin'"
  unfolding processbound_def Let_def
  by (simp split: if_splits prod.splits LpComparisonType.splits)

function boundssec_loop ::
  "ProcessedToken list \<Rightarrow> nat \<Rightarrow> nat \<times> Builder \<Rightarrow> error + (nat \<times> Builder)" where
  "boundssec_loop toks sec_end (begin, b) =
     (if begin = sec_end then Inr (begin, b)
      else if \<not> in_range toks sec_end begin then Inl InvalidRead
      else
        (case processbound toks sec_end begin b of
           Inl e \<Rightarrow> Inl e
         | Inr s \<Rightarrow> boundssec_loop toks sec_end s))"
  by pat_completeness auto
termination
proof (relation "measure (\<lambda>(toks, sec_end, begin, b). length toks - begin)", goal_cases)
  case 1
  show ?case by simp
next
  case (2 toks sec_end it b s)
  obtain it' b' where s: "s = (it', b')" by (cases s)
  from 2(2) have "it < length toks" by (simp add: in_range_def)
  moreover have "it < it'"
    using 2(3) s processbound_gt [of toks sec_end it b it' b'] by simp
  ultimately show ?case using s by simp
qed

declare boundssec_loop.simps [simp del]

definition processboundssec :: "Reader \<Rightarrow> error + Reader" where
  "processboundssec r =
     (if \<not> sectiontokens r BOUNDS \<noteq> None then Inr r else with_section BOUNDS boundssec_loop r)"

text \<open>
  The \<^verbatim>\<open>for\<close> loops of \<^verbatim>\<open>processbinsec\<close>, \<^verbatim>\<open>processgensec\<close> and \<^verbatim>\<open>processsemisec\<close> go
  through the variables the section lists; \<open>typesec_loop\<close> is the loop, and its first
  argument what the body assigns to the variable.
\<close>

function typesec_loop ::
  "(Variable \<Rightarrow> Variable) \<Rightarrow> ProcessedToken list \<Rightarrow> nat \<Rightarrow> nat \<times> Builder
     \<Rightarrow> error + (nat \<times> Builder)" where
  "typesec_loop f toks sec_end (begin, b) =
     (if begin = sec_end then Inr (begin, b)
      else if \<not> in_range toks sec_end begin then Inl InvalidRead
      else if \<not> is_VARID (toks ! begin) then Inl MalformedSection
      else
        (let n = tok_name (toks ! begin);
             (var, b1) = getvarbyname b n
         in typesec_loop f toks sec_end (begin + 1, setvar b1 n (f var))))"
  by pat_completeness auto
termination
proof (relation "measure (\<lambda>(f, toks, sec_end, begin, b). length toks - begin)", goal_cases)
  case 1
  show ?case by simp
next
  case (2 f toks sec_end it b)
  from 2(2) have "it < length toks" by (simp add: in_range_def)
  then show ?case by simp
qed

declare typesec_loop.simps [simp del]

definition set_binary :: "Variable \<Rightarrow> Variable" where
  "set_binary var = var\<lparr>var_type := BINARY, var_lowerbound := DVal 0, var_upperbound := DVal 1\<rparr>"

definition set_general :: "Variable \<Rightarrow> Variable" where
  "set_general var =
     (if var_type var = SEMICONTINUOUS then var\<lparr>var_type := SEMIINTEGER\<rparr>
      else var\<lparr>var_type := GENERAL\<rparr>)"

definition set_semi :: "Variable \<Rightarrow> Variable" where
  "set_semi var =
     (if var_type var = GENERAL then var\<lparr>var_type := SEMIINTEGER\<rparr>
      else var\<lparr>var_type := SEMICONTINUOUS\<rparr>)"

definition processbinsec :: "Reader \<Rightarrow> error + Reader" where
  "processbinsec r =
     (if \<not> sectiontokens r BIN \<noteq> None then Inr r
      else with_section BIN (typesec_loop set_binary) r)"

definition processgensec :: "Reader \<Rightarrow> error + Reader" where
  "processgensec r =
     (if \<not> sectiontokens r GEN \<noteq> None then Inr r
      else with_section GEN (typesec_loop set_general) r)"

text \<open>
  \<^verbatim>\<open>Reader::processsemisec\<close> looks for the entry of \<^verbatim>\<open>GEN\<close> and then works on the entry
  of \<^verbatim>\<open>SEMI\<close>, as the source does.
\<close>

definition processsemisec :: "Reader \<Rightarrow> error + Reader" where
  "processsemisec r =
     (if \<not> sectiontokens r GEN \<noteq> None then Inr r
      else with_section SEMI (typesec_loop set_semi) r)"

text \<open>
  The inner loop of \<^verbatim>\<open>Reader::processsossec\<close>: the \<^verbatim>\<open>var : weight\<close> entries of one
  set.  A label followed by no number is consumed before the \<^verbatim>\<open>break\<close>.
\<close>

function sosentries ::
  "ProcessedToken list \<Rightarrow> nat \<Rightarrow> nat \<times> (string \<times> double) list \<times> Builder
     \<Rightarrow> error + (nat \<times> (string \<times> double) list \<times> Builder)" where
  "sosentries toks sec_end (begin, entries, b) =
     (if begin = sec_end then Inr (begin, entries, b)
      else if \<not> in_range toks sec_end begin then Inl InvalidRead
      else if is_CONID (toks ! begin) \<noteq> True then Inr (begin, entries, b)
      else
        (let n = tok_name (toks ! begin);
             begin1 = begin + 1
         in if begin1 \<noteq> sec_end \<and> is_CONST (toks ! begin1) then
              (let (var, b1) = getvarbyname b n;
                   weight = tok_value (toks ! begin1)
               in sosentries toks sec_end (begin1 + 1, entries @ [(n, weight)], b1))
            else Inr (begin1, entries, b)))"
  by pat_completeness auto
termination
proof (relation "measure (\<lambda>(toks, sec_end, begin, s). length toks - begin)", goal_cases)
  case 1
  show ?case by simp
next
  case (2 toks sec_end it entries b n it1)
  from 2(2) have "it < length toks" by (simp add: in_range_def)
  with 2(5) show ?case by simp
qed

declare sosentries.simps [simp del]

lemma sosentries_ge:
  "sosentries toks sec_end (it, entries, b) = Inr (it', entries', b') \<Longrightarrow> it \<le> it'"
proof (induction "length toks - it" arbitrary: it entries b rule: less_induct)
  case less
  show ?case
  proof (cases "it \<noteq> sec_end \<and> in_range toks sec_end it \<and> is_CONID (toks ! it)
                 \<and> it + 1 \<noteq> sec_end \<and> is_CONST (toks ! (it + 1))")
    case True
    obtain var b1 where g: "getvarbyname b (tok_name (toks ! it)) = (var, b1)"
      by (cases "getvarbyname b (tok_name (toks ! it))")
    from True have lt: "it < length toks" by (simp add: in_range_def)
    have "sosentries toks sec_end
            (it + 2, entries @ [(tok_name (toks ! it), tok_value (toks ! (it + 1)))], b1)
          = Inr (it', entries', b')"
      using less.prems True g by (subst (asm) sosentries.simps) (simp add: Let_def)
    then have "it + 2 \<le> it'"
      using less.hyps [of "it + 2"] lt by simp
    then show ?thesis by simp
  next
    case False
    with less.prems show ?thesis
      by (subst (asm) sosentries.simps) (auto simp: Let_def split: if_splits)
  qed
qed

text \<open>The body of the outer loop of \<^verbatim>\<open>Reader::processsossec\<close>: one set.\<close>

definition processsos ::
  "ProcessedToken list \<Rightarrow> nat \<Rightarrow> nat \<Rightarrow> Builder \<Rightarrow> error + (nat \<times> Builder)" where
  "processsos toks sec_end begin b =
     (if \<not> is_CONID (toks ! begin) then Inl MalformedSpecialOrderedSetEntry
      else
        (let n = tok_name (toks ! begin);
             begin1 = begin + 1
         in if \<not> begin1 \<noteq> sec_end then Inl MalformedSpecialOrderedSetEntry
            else if \<not> is_SOSTYPE (toks ! begin1) then Inl MalformedSpecialOrderedSetEntry
            else
              (let t = (if tok_sostype (toks ! begin1) = SOS1 then 1 else 2) in
               case sosentries toks sec_end (begin1 + 1, [], b) of
                 Inl e \<Rightarrow> Inl e
               | Inr (begin2, entries, b1) \<Rightarrow>
                   Inr (begin2,
                        b1\<lparr>model := (model b1)
                             \<lparr>soss := soss (model b1)
                                @ [\<lparr>sos_name = n, sos_type = t, sos_entries = entries\<rparr>]\<rparr>\<rparr>))))"

lemma processsos_gt: "processsos toks sec_end begin b = Inr (begin', b') \<Longrightarrow> begin < begin'"
  unfolding processsos_def Let_def
  by (auto split: sum.splits if_splits dest!: sosentries_ge)

function sossec_loop ::
  "ProcessedToken list \<Rightarrow> nat \<Rightarrow> nat \<times> Builder \<Rightarrow> error + (nat \<times> Builder)" where
  "sossec_loop toks sec_end (begin, b) =
     (if begin = sec_end then Inr (begin, b)
      else if \<not> in_range toks sec_end begin then Inl InvalidRead
      else
        (case processsos toks sec_end begin b of
           Inl e \<Rightarrow> Inl e
         | Inr s \<Rightarrow> sossec_loop toks sec_end s))"
  by pat_completeness auto
termination
proof (relation "measure (\<lambda>(toks, sec_end, begin, b). length toks - begin)", goal_cases)
  case 1
  show ?case by simp
next
  case (2 toks sec_end it b s)
  obtain it' b' where s: "s = (it', b')" by (cases s)
  from 2(2) have "it < length toks" by (simp add: in_range_def)
  moreover have "it < it'"
    using 2(3) s processsos_gt [of toks sec_end it b it' b'] by simp
  ultimately show ?case using s by simp
qed

declare sossec_loop.simps [simp del]

definition processsossec :: "Reader \<Rightarrow> error + Reader" where
  "processsossec r =
     (if \<not> sectiontokens r SOS \<noteq> None then Inr r else with_section SOS sossec_loop r)"

definition processendsec :: "Reader \<Rightarrow> error + Reader" where
  "processendsec r = (if sectiontokens r END \<noteq> None then Inl MalformedSection else Inr r)"

text \<open>A statement that may throw, followed by the rest of the function.\<close>

definition and_then :: "error + 'a \<Rightarrow> ('a \<Rightarrow> error + 'b) \<Rightarrow> error + 'b" where
  "and_then x f = (case x of Inl e \<Rightarrow> Inl e | Inr a \<Rightarrow> f a)"

definition processsections :: "addition \<Rightarrow> Reader \<Rightarrow> error + Reader" where
  "processsections fadd r =
     and_then (processnonesec r) (\<lambda>r.
     and_then (processobjsec fadd r) (\<lambda>r.
     and_then (processconsec fadd r) (\<lambda>r.
     and_then (processboundssec r) (\<lambda>r.
     and_then (processgensec r) (\<lambda>r.
     and_then (processbinsec r) (\<lambda>r.
     and_then (processsemisec r) (\<lambda>r.
     and_then (processsossec r) (\<lambda>r.
     processendsec r))))))))"

text \<open>
  The end of \<^verbatim>\<open>Reader::read\<close>, from the processed tokens on: split them into sections,
  process the sections on a new builder and return the builder's model.  \<open>sns\<close> is the
  initial objective sense of the model.
\<close>

definition read_tokens :: "addition \<Rightarrow> ObjectiveSense \<Rightarrow> ProcessedToken list \<Rightarrow> error + Model" where
  "read_tokens fadd sns toks =
     and_then (splittokens toks) (\<lambda>m.
     and_then (processsections fadd
                 \<lparr>processedtokens = toks, sectiontokens = m, builder = new_Builder sns\<rparr>) (\<lambda>r.
     Inr (model (builder r))))"

section \<open>The lexer\<close>

text \<open>
  The input members of \<^verbatim>\<open>class Reader\<close>: the stream \<^verbatim>\<open>file\<close> as the characters that are not
  read yet (\<open>infile\<close>) and its end-of-file flag, the line buffer and the position in it.
\<close>

record Lexer =
  infile :: string
  eofbit :: bool
  linebuffer :: string
  linebufferpos :: nat

text \<open>
  \<^verbatim>\<open>std::getline\<close> on an open stream that is not at its end: the characters up to the next
  newline, which is consumed and not stored; when there is no newline the rest of the
  file is the line and the stream sets its end-of-file flag.  The reader then drops a
  carriage return that ends the line and goes to the start of the line.
\<close>

definition readline :: "Lexer \<Rightarrow> Lexer" where
  "readline lx =
     (let newline = CHR 0x0A;
          line = takeWhile (\<lambda>c. c \<noteq> newline) (infile lx);
          rest = drop (length line + 1) (infile lx);
          line1 = (if line \<noteq> [] \<and> last line = CHR 0x0D then butlast line else line)
      in \<lparr>infile = rest, eofbit = (newline \<notin> set (infile lx)), linebuffer = line1,
          linebufferpos = 0\<rparr>)"

text \<open>
  \<^verbatim>\<open>strtod\<close> is the C library's; here it is an argument \<open>strtod\<close> that, given the text
  from the current position on, returns the number and how many characters the
  conversion consumed, zero when there is no conversion.  (The C function reads the
  text up to the first null character; nothing here relies on what a conversion does
  with a text that holds one.)
\<close>

type_synonym conversion = "string \<Rightarrow> double \<times> nat"

text \<open>
  The characters that end an identifier: the argument of \<^verbatim>\<open>find_first_of\<close> in
  \<^verbatim>\<open>Reader::readnexttoken\<close>, which is \<^verbatim>\<open>"\t\n\\:+<>^= /-*"\<close>.
\<close>

definition identifier_end :: "char list" where
  "identifier_end =
     [CHR 0x09, CHR 0x0A, CHR 0x5C, CHR '':'', CHR ''+'', CHR ''<'', CHR ''>'', CHR ''^'',
      CHR ''='', CHR '' '', CHR ''/'', CHR ''-'', CHR ''*'']"

text \<open>
  \<^verbatim>\<open>linebuffer.find_first_of(chars, pos)\<close>, with the size of the buffer for \<^verbatim>\<open>npos\<close> as
  the reader replaces it.
\<close>

definition find_first_of :: "string \<Rightarrow> char list \<Rightarrow> nat \<Rightarrow> nat" where
  "find_first_of buf chars pos = pos + length (takeWhile (\<lambda>c. c \<notin> set chars) (drop pos buf))"

text \<open>
  \<^verbatim>\<open>Reader::readnexttoken\<close>.  \<open>Some t\<close> is the return value \<^verbatim>\<open>true\<close> with the token \<open>t\<close>
  assigned, \<open>None\<close> the return value \<^verbatim>\<open>false\<close>.  At the end of the buffer
  \<^verbatim>\<open>linebuffer[linebufferpos]\<close> is the null character.  A null character inside a line
  fails the \<^verbatim>\<open>assert\<close> of the source (\<open>AssertionFailed\<close>; where assertions are compiled out
  the source returns \<^verbatim>\<open>false\<close> there without moving on), and a position beyond the end of the
  buffer, which a conversion that consumed more than the buffer holds would leave, is
  \<open>InvalidRead\<close>.
\<close>

definition readnexttoken :: "conversion \<Rightarrow> Lexer \<Rightarrow> error + (RawToken option \<times> Lexer)" where
  "readnexttoken strtod lx0 =
     (if linebufferpos lx0 = length (linebuffer lx0) \<and> eofbit lx0 then Inr (Some RawFLEND, lx0)
      else
        (let lx = (if linebufferpos lx0 = length (linebuffer lx0) then readline lx0 else lx0);
             buf = linebuffer lx;
             pos = linebufferpos lx
         in if length buf < pos then Inl InvalidRead
            else
              (let nextchar = (if pos < length buf then buf ! pos else CHR 0x00) in
               if nextchar = CHR 0x5C then Inr (None, lx\<lparr>linebufferpos := length buf\<rparr>)
               else if nextchar = CHR ''['' then Inr (Some RawBRKOP, lx\<lparr>linebufferpos := pos + 1\<rparr>)
               else if nextchar = CHR '']'' then Inr (Some RawBRKCL, lx\<lparr>linebufferpos := pos + 1\<rparr>)
               else if nextchar = CHR ''<'' then Inr (Some RawLESS, lx\<lparr>linebufferpos := pos + 1\<rparr>)
               else if nextchar = CHR ''>'' then Inr (Some RawGREATER, lx\<lparr>linebufferpos := pos + 1\<rparr>)
               else if nextchar = CHR ''='' then Inr (Some RawEQUAL, lx\<lparr>linebufferpos := pos + 1\<rparr>)
               else if nextchar = CHR '':'' then Inr (Some RawCOLON, lx\<lparr>linebufferpos := pos + 1\<rparr>)
               else if nextchar = CHR ''+'' then Inr (Some RawPLUS, lx\<lparr>linebufferpos := pos + 1\<rparr>)
               else if nextchar = CHR ''^'' then Inr (Some RawHAT, lx\<lparr>linebufferpos := pos + 1\<rparr>)
               else if nextchar = CHR ''/'' then Inr (Some RawSLASH, lx\<lparr>linebufferpos := pos + 1\<rparr>)
               else if nextchar = CHR ''*'' then Inr (Some RawASTERISK, lx\<lparr>linebufferpos := pos + 1\<rparr>)
               else if nextchar = CHR ''-'' then Inr (Some RawMINUS, lx\<lparr>linebufferpos := pos + 1\<rparr>)
               else if nextchar = CHR '' '' \<or> nextchar = CHR 0x09
                 then Inr (None, lx\<lparr>linebufferpos := pos + 1\<rparr>)
               else if nextchar = CHR '';'' \<or> nextchar = CHR 0x0A
                 then Inr (None, lx\<lparr>linebufferpos := length buf\<rparr>)
               else if nextchar = CHR 0x00
                 then (if pos = length buf then Inr (None, lx) else Inl AssertionFailed)
               else
                 (let (constant, n) = strtod (drop pos buf) in
                  if n \<noteq> 0 then Inr (Some (RawCONS constant), lx\<lparr>linebufferpos := pos + n\<rparr>)
                  else
                    (let endpos = find_first_of buf identifier_end pos in
                     if endpos > pos
                       then Inr (Some (RawSTR (take (endpos - pos) (drop pos buf))),
                                 lx\<lparr>linebufferpos := endpos\<rparr>)
                     else Inl UnexpectedCharacter)))))"

text \<open>What is left to read: it gets less with every call that does not return the end of the file.\<close>

definition remaining :: "Lexer \<Rightarrow> nat" where
  "remaining lx =
     length (infile lx) + (if eofbit lx then 0 else 1) + (length (linebuffer lx) - linebufferpos lx)"

text \<open>
  The loop \<^verbatim>\<open>while( !readnexttoken(t) ) ;\<close> of \<^verbatim>\<open>Reader::read\<close> and of
  \<^verbatim>\<open>Reader::nextrawtoken\<close>: the next call that returns a token.
\<close>

lemma readline_remaining: "remaining (readline lx) \<le> length (infile lx)"
proof -
  define line where "line = takeWhile (\<lambda>c. c \<noteq> CHR 0x0A) (infile lx)"
  define line1 where "line1 = (if line \<noteq> [] \<and> last line = CHR 0x0D then butlast line else line)"
  have l1: "length line1 \<le> length line" by (simp add: line1_def)
  have rem: "remaining (readline lx) =
      length (infile lx) - (length line + 1) + (if CHR 0x0A \<in> set (infile lx) then 1 else 0)
      + length line1"
    by (simp add: remaining_def readline_def Let_def line_def [symmetric] line1_def)
  show ?thesis
  proof (cases "CHR 0x0A \<in> set (infile lx)")
    case True
    have "infile lx = line @ dropWhile (\<lambda>c. c \<noteq> CHR 0x0A) (infile lx)" by (simp add: line_def)
    moreover from True have "dropWhile (\<lambda>c. c \<noteq> CHR 0x0A) (infile lx) \<noteq> []" by auto
    ultimately have "length line < length (infile lx)"
      by (metis length_append length_greater_0_conv less_add_same_cancel1)
    with True l1 rem show ?thesis by simp
  next
    case False
    then have "\<forall>c \<in> set (infile lx). c \<noteq> CHR 0x0A" by auto
    then have "line = infile lx" unfolding line_def by (rule takeWhile_eq_all_conv [THEN iffD2])
    then have "length line = length (infile lx)" by simp
    with False l1 rem show ?thesis by simp
  qed
qed

lemma readnexttoken_remaining:
  assumes "readnexttoken strtod lx = Inr (res, lx')"
  shows "(res = Some RawFLEND \<and> lx' = lx) \<or> remaining lx' < remaining lx"
proof (cases "linebufferpos lx = length (linebuffer lx) \<and> eofbit lx")
  case True
  with assms show ?thesis by (simp add: readnexttoken_def)
next
  case False
  define lx1 where "lx1 = (if linebufferpos lx = length (linebuffer lx) then readline lx else lx)"
  have pos0: "linebufferpos lx = length (linebuffer lx) \<Longrightarrow> linebufferpos lx1 = 0"
    by (simp add: lx1_def readline_def Let_def)
  have r1: "linebufferpos lx = length (linebuffer lx) \<Longrightarrow> remaining lx1 < remaining lx"
  proof -
    assume eq: "linebufferpos lx = length (linebuffer lx)"
    with False have "\<not> eofbit lx" by simp
    with eq have "remaining lx = length (infile lx) + 1" by (simp add: remaining_def)
    moreover from eq have "remaining lx1 \<le> length (infile lx)"
      using readline_remaining [of lx] by (simp add: lx1_def)
    ultimately show ?thesis by simp
  qed
  have r2: "linebufferpos lx \<noteq> length (linebuffer lx) \<Longrightarrow> lx1 = lx" by (simp add: lx1_def)
  have upd: "\<And>p. linebufferpos lx1 < p \<Longrightarrow> linebufferpos lx1 < length (linebuffer lx1)
      \<Longrightarrow> remaining (lx1\<lparr>linebufferpos := p\<rparr>) < remaining lx1"
    by (simp add: remaining_def)
  have le: "remaining lx1 \<le> remaining lx" using r1 r2 by (cases "linebufferpos lx = length (linebuffer lx)") auto
  from assms False have ok: "\<not> length (linebuffer lx1) < linebufferpos lx1"
    by (auto simp: readnexttoken_def Let_def lx1_def split: if_splits)
  show ?thesis
  proof (cases "linebufferpos lx1 < length (linebuffer lx1)")
    case inside: True
    from assms False inside obtain p where "lx' = lx1\<lparr>linebufferpos := p\<rparr>" "linebufferpos lx1 < p"
      by (auto simp: readnexttoken_def Let_def lx1_def [symmetric] find_first_of_def
               split: if_splits prod.splits)
    with upd inside le show ?thesis by fastforce
  next
    case outside: False
    with ok have atend: "linebufferpos lx1 = length (linebuffer lx1)" by simp
    have "linebufferpos lx = length (linebuffer lx)"
    proof (rule ccontr)
      assume n: "linebufferpos lx \<noteq> length (linebuffer lx)"
      then have "lx1 = lx" by (rule r2)
      with atend n show False by simp
    qed
    then have lt: "remaining lx1 < remaining lx" by (rule r1)
    from assms False atend have "lx' = lx1"
      by (auto simp: readnexttoken_def Let_def lx1_def [symmetric] split: if_splits)
    with lt show ?thesis by simp
  qed
qed

function nexttoken :: "conversion \<Rightarrow> Lexer \<Rightarrow> error + (RawToken \<times> Lexer)" where
  "nexttoken strtod lx =
     (case readnexttoken strtod lx of
        Inl e \<Rightarrow> Inl e
      | Inr (Some t, lx') \<Rightarrow> Inr (t, lx')
      | Inr (None, lx') \<Rightarrow> nexttoken strtod lx')"
  by pat_completeness auto
termination
proof (relation "measure (\<lambda>(strtod, lx). remaining lx)", goal_cases)
  case 1
  show ?case by simp
next
  case (2 strtod lx res p lx')
  then have "readnexttoken strtod lx = Inr (None, lx')" by simp
  from readnexttoken_remaining [OF this] show ?case by simp
qed

declare nexttoken.simps [simp del]

section \<open>The token classifier\<close>

text \<open>
  The window members of \<^verbatim>\<open>class Reader\<close>, beside the lexer: the array \<^verbatim>\<open>rawtokens\<close> of five
  tokens, as a function of the index, and \<^verbatim>\<open>rawtokenpos\<close>, a \<^verbatim>\<open>size_t\<close> that counts the
  tokens read and is taken here as a natural number.
\<close>

record Scanner =
  lexer :: Lexer
  rawtokens :: "nat \<Rightarrow> RawToken"
  rawtokenpos :: nat

definition rawtoken :: "Scanner \<Rightarrow> nat \<Rightarrow> RawToken" where
  "rawtoken sc i = rawtokens sc ((rawtokenpos sc + i) mod 5)"

fun nextrawtoken :: "conversion \<Rightarrow> nat \<Rightarrow> Scanner \<Rightarrow> error + Scanner" where
  "nextrawtoken strtod 0 sc = Inr sc"
| "nextrawtoken strtod (Suc howmany) sc =
     (case nexttoken strtod (lexer sc) of
        Inl e \<Rightarrow> Inl e
      | Inr (t, lx) \<Rightarrow>
          nextrawtoken strtod howmany
            (sc\<lparr>lexer := lx, rawtokens := (rawtokens sc)(rawtokenpos sc mod 5 := t),
                rawtokenpos := rawtokenpos sc + 1\<rparr>))"

text \<open>
  Modelled from the spec: the keyword tables \<^verbatim>\<open>LP_KEYWORD_*\<close> are declared in a header that
  is not part of the sources at hand; the spellings are those the specification lists.
\<close>

definition LP_KEYWORD_MIN :: "string list" where
  "LP_KEYWORD_MIN = [''min'', ''minimize'', ''minimise'']"

definition LP_KEYWORD_MAX :: "string list" where
  "LP_KEYWORD_MAX = [''max'', ''maximize'', ''maximise'']"

definition LP_KEYWORD_ST :: "string list" where
  "LP_KEYWORD_ST = [''st'', ''s.t.'', ''subject to'', ''such that'']"

definition LP_KEYWORD_BOUNDS :: "string list" where
  "LP_KEYWORD_BOUNDS = [''bounds'', ''bound'']"

definition LP_KEYWORD_BIN :: "string list" where
  "LP_KEYWORD_BIN = [''bin'', ''binary'', ''binaries'']"

definition LP_KEYWORD_GEN :: "string list" where
  "LP_KEYWORD_GEN = [''gen'', ''general'', ''generals'', ''int'', ''integer'', ''integers'']"

definition LP_KEYWORD_SEMI :: "string list" where
  "LP_KEYWORD_SEMI = [''semi'', ''semi-continuous'', ''semis'']"

definition LP_KEYWORD_SOS :: "string list" where
  "LP_KEYWORD_SOS = [''sos'']"

definition LP_KEYWORD_END :: "string list" where
  "LP_KEYWORD_END = [''end'']"

definition LP_KEYWORD_FREE :: "string list" where
  "LP_KEYWORD_FREE = [''free'']"

definition LP_KEYWORD_INF :: "string list" where
  "LP_KEYWORD_INF = [''inf'', ''infinity'']"

definition iskeyword :: "string \<Rightarrow> string list \<Rightarrow> bool" where
  "iskeyword str keywords = (str \<in> set keywords)"

text \<open>\<^verbatim>\<open>std::tolower\<close> in the C locale: the letters \<^verbatim>\<open>A\<close> to \<^verbatim>\<open>Z\<close> go to \<^verbatim>\<open>a\<close> to \<^verbatim>\<open>z\<close>.\<close>

definition tolower :: "char \<Rightarrow> char" where
  "tolower c =
     (case map_of (zip ''ABCDEFGHIJKLMNOPQRSTUVWXYZ'' ''abcdefghijklmnopqrstuvwxyz'') c of
        Some l \<Rightarrow> l
      | None \<Rightarrow> c)"

definition parsesectionkeyword :: "string \<Rightarrow> LpSectionKeyword" where
  "parsesectionkeyword str0 =
     (let str = map tolower str0 in
      if iskeyword str LP_KEYWORD_MIN then OBJMIN
      else if iskeyword str LP_KEYWORD_MAX then OBJMAX
      else if iskeyword str LP_KEYWORD_ST then CON
      else if iskeyword str LP_KEYWORD_BOUNDS then BOUNDS
      else if iskeyword str LP_KEYWORD_BIN then BIN
      else if iskeyword str LP_KEYWORD_GEN then GEN
      else if iskeyword str LP_KEYWORD_SEMI then SEMI
      else if iskeyword str LP_KEYWORD_SOS then SOS
      else if iskeyword str LP_KEYWORD_END then END
      else NONE)"

text \<open>
  The body of the loop of \<^verbatim>\<open>Reader::processtokens\<close> from the second rule on: the token
  that is appended to \<^verbatim>\<open>processedtokens\<close> and the number that \<^verbatim>\<open>nextrawtoken\<close> is then
  called with.  A failed \<^verbatim>\<open>lpassert\<close> is \<open>MalformedExpression\<close> for a minus or a constant
  before an opening bracket and \<open>UnknownToken\<close> elsewhere.
\<close>

definition classify :: "Scanner \<Rightarrow> error + (ProcessedToken \<times> nat)" where
  "classify sc =
     (let t0 = rawtoken sc 0; t1 = rawtoken sc 1; t2 = rawtoken sc 2 in
      if is_STR t0 \<and> t1 = RawMINUS \<and> is_STR t2
         \<and> parsesectionkeyword (svalue t0 @ ''-'' @ svalue t2) \<noteq> NONE
        then Inr (SECID (parsesectionkeyword (svalue t0 @ ''-'' @ svalue t2)), 3)
      else if is_STR t0 \<and> is_STR t1 \<and> parsesectionkeyword (svalue t0 @ '' '' @ svalue t1) \<noteq> NONE
        then Inr (SECID (parsesectionkeyword (svalue t0 @ '' '' @ svalue t1)), 2)
      else if is_STR t0 \<and> parsesectionkeyword (svalue t0) \<noteq> NONE
        then Inr (SECID (parsesectionkeyword (svalue t0)), 1)
      else if is_STR t0 \<and> t1 = RawCOLON \<and> t2 = RawCOLON
        then (if length (svalue t0) \<noteq> 2 then Inl UnknownToken
              else if \<not> (svalue t0 ! 0 = CHR ''S'' \<or> svalue t0 ! 0 = CHR ''s'') then Inl UnknownToken
              else if \<not> (svalue t0 ! 1 = CHR ''1'' \<or> svalue t0 ! 1 = CHR ''2'') then Inl UnknownToken
              else Inr (SOSTYPE (if svalue t0 ! 1 = CHR ''1'' then SOS1 else SOS2), 3))
      else if is_STR t0 \<and> t1 = RawCOLON then Inr (CONID (svalue t0), 2)
      else if is_STR t0 \<and> iskeyword (svalue t0) LP_KEYWORD_FREE then Inr (FREE, 1)
      else if is_STR t0 \<and> iskeyword (svalue t0) LP_KEYWORD_INF then Inr (CONSTVAL PosInf, 1)
      else if is_STR t0 then Inr (VARID (svalue t0), 1)
      else if t0 = RawPLUS \<and> is_CONS t1 then Inr (CONSTVAL (dvalue t1), 2)
      else if t0 = RawMINUS \<and> is_CONS t1 then Inr (CONSTVAL (dneg (dvalue t1)), 2)
      else if t0 = RawPLUS \<and> t1 = RawBRKOP then Inr (BRKOP, 2)
      else if t0 = RawMINUS \<and> t1 = RawBRKOP then Inl MalformedExpression
      else if is_CONS t0 \<and> t1 = RawBRKOP then Inl MalformedExpression
      else if t0 = RawPLUS then Inr (CONSTVAL (DVal 1), 1)
      else if t0 = RawMINUS then Inr (CONSTVAL (DVal (- 1)), 1)
      else if is_CONS t0 then Inr (CONSTVAL (dvalue t0), 1)
      else if t0 = RawBRKOP then Inr (BRKOP, 1)
      else if t0 = RawBRKCL then Inr (BRKCL, 1)
      else if t0 = RawSLASH then Inr (SLASH, 1)
      else if t0 = RawASTERISK then Inr (ASTERISK, 1)
      else if t0 = RawHAT then Inr (HAT, 1)
      else if t0 = RawLESS \<and> t1 = RawEQUAL then Inr (COMP LEQ, 2)
      else if t0 = RawLESS then Inr (COMP L, 1)
      else if t0 = RawGREATER \<and> t1 = RawEQUAL then Inr (COMP GEQ, 2)
      else if t0 = RawGREATER then Inr (COMP G, 1)
      else if t0 = RawEQUAL then Inr (COMP EQ, 1)
      else Inl UnknownToken)"

text \<open>
  The measure of the loops over the window: what is left to read and, at equal
  remainders, the number of tokens in the window that are not the end of the file.
\<close>

definition pending :: "Scanner \<Rightarrow> nat" where
  "pending sc =
     6 * remaining (lexer sc) + length (filter (\<lambda>i. rawtokens sc i \<noteq> RawFLEND) [0..<5])"

lemma nexttoken_remaining:
  "nexttoken strtod lx = Inr (t, lx') \<Longrightarrow>
     remaining lx' \<le> remaining lx \<and> (t \<noteq> RawFLEND \<longrightarrow> remaining lx' < remaining lx)"
proof (induction strtod lx rule: nexttoken.induct)
  case (1 strtod lx)
  show ?case
  proof (cases "readnexttoken strtod lx")
    case (Inl e)
    with "1.prems" show ?thesis by (simp add: nexttoken.simps)
  next
    case (Inr p)
    obtain res lx1 where p: "p = (res, lx1)" by (cases p)
    from Inr p have rd: "readnexttoken strtod lx = Inr (res, lx1)" by simp
    note rem = readnexttoken_remaining [OF rd]
    show ?thesis
    proof (cases res)
      case None
      with rd "1.prems" have nt: "nexttoken strtod lx1 = Inr (t, lx')"
        by (simp add: nexttoken.simps [of strtod lx])
      from None rem have lt: "remaining lx1 < remaining lx" by simp
      from "1.IH" [OF rd [unfolded None] refl refl nt] lt show ?thesis by auto
    next
      case (Some t')
      with rd "1.prems" have "t = t'" "lx' = lx1" by (simp_all add: nexttoken.simps [of strtod lx])
      with Some rem show ?thesis by auto
    qed
  qed
qed

lemma count_update:
  assumes "j < 5"
  shows "length (filter (\<lambda>i. (f(j := t)) i \<noteq> RawFLEND) [0..<5]) + (if f j \<noteq> RawFLEND then 1 else 0)
         = length (filter (\<lambda>i. f i \<noteq> RawFLEND) [0..<5]) + (if t \<noteq> RawFLEND then 1 else 0)"
proof -
  have upt5: "[0..<5] = [0, 1, 2, 3, 4::nat]" by (simp add: upt_rec)
  from assms consider "j = 0" | "j = 1" | "j = 2" | "j = 3" | "j = 4" by linarith
  then show ?thesis by cases (simp_all add: upt5)
qed

lemma count_le: "length (filter (\<lambda>i. f i \<noteq> RawFLEND) [0..<5]) \<le> 5"
  using length_filter_le [of "\<lambda>i. f i \<noteq> RawFLEND" "[0..<5]"] by simp

lemma shift_pending:
  assumes "nexttoken strtod (lexer sc) = Inr (t, lx)"
  defines "sc' \<equiv> sc\<lparr>lexer := lx, rawtokens := (rawtokens sc)(rawtokenpos sc mod 5 := t),
                      rawtokenpos := rawtokenpos sc + 1\<rparr>"
  shows "pending sc' \<le> pending sc \<and> (rawtoken sc 0 \<noteq> RawFLEND \<longrightarrow> pending sc' < pending sc)"
proof -
  define j where "j = rawtokenpos sc mod 5"
  define c where "c = length (filter (\<lambda>i. rawtokens sc i \<noteq> RawFLEND) [0..<5])"
  define c' where "c' = length (filter (\<lambda>i. ((rawtokens sc)(j := t)) i \<noteq> RawFLEND) [0..<5])"
  have j: "j < 5" by (simp add: j_def)
  have cu: "c' + (if rawtokens sc j \<noteq> RawFLEND then 1 else 0) = c + (if t \<noteq> RawFLEND then 1 else 0)"
    unfolding c_def c'_def by (rule count_update [OF j])
  have cl: "c' \<le> 5" unfolding c'_def by (rule count_le)
  have p: "pending sc = 6 * remaining (lexer sc) + c" by (simp add: pending_def c_def)
  have p': "pending sc' = 6 * remaining lx + c'"
    unfolding pending_def sc'_def c'_def j_def by simp
  have w0: "rawtoken sc 0 = rawtokens sc j" by (simp add: rawtoken_def j_def)
  note rem = nexttoken_remaining [OF assms(1)]
  show ?thesis
  proof (cases "t = RawFLEND")
    case True
    with cu have "c' \<le> c" and "rawtokens sc j \<noteq> RawFLEND \<longrightarrow> c' < c" by (auto split: if_splits)
    with rem show ?thesis unfolding p p' w0 by auto
  next
    case False
    with rem have "remaining lx < remaining (lexer sc)" by simp
    with cl show ?thesis unfolding p p' by simp
  qed
qed

lemma nextrawtoken_le: "nextrawtoken strtod k sc = Inr sc' \<Longrightarrow> pending sc' \<le> pending sc"
proof (induction k arbitrary: sc)
  case 0
  then show ?case by simp
next
  case (Suc k)
  from Suc.prems obtain t lx where nt: "nexttoken strtod (lexer sc) = Inr (t, lx)"
    and rest: "nextrawtoken strtod k
        (sc\<lparr>lexer := lx, rawtokens := (rawtokens sc)(rawtokenpos sc mod 5 := t),
            rawtokenpos := rawtokenpos sc + 1\<rparr>) = Inr sc'"
    by (auto split: sum.splits)
  from Suc.IH [OF rest] shift_pending [OF nt] show ?case by simp
qed

lemma nextrawtoken_lt:
  assumes "0 < k" and "rawtoken sc 0 \<noteq> RawFLEND" and "nextrawtoken strtod k sc = Inr sc'"
  shows "pending sc' < pending sc"
proof -
  from assms(1) obtain k' where k: "k = Suc k'" by (cases k) auto
  from assms(3) k obtain t lx where nt: "nexttoken strtod (lexer sc) = Inr (t, lx)"
    and rest: "nextrawtoken strtod k'
        (sc\<lparr>lexer := lx, rawtokens := (rawtokens sc)(rawtokenpos sc mod 5 := t),
            rawtokenpos := rawtokenpos sc + 1\<rparr>) = Inr sc'"
    by (auto split: sum.splits)
  from nextrawtoken_le [OF rest] shift_pending [OF nt] assms(2) show ?thesis by simp
qed

text \<open>
  The comment rule of \<^verbatim>\<open>Reader::processtokens\<close> skips pairs of tokens with a loop that
  tests at its end; \<open>commentloop\<close> is that loop after its first round.
\<close>

function commentloop :: "conversion \<Rightarrow> Scanner \<Rightarrow> error + Scanner" where
  "commentloop strtod sc =
     (if \<not> (rawtoken sc 0 = RawASTERISK \<and> rawtoken sc 1 = RawSLASH) \<and> rawtoken sc 0 \<noteq> RawFLEND
      then (case nextrawtoken strtod 2 sc of Inl e \<Rightarrow> Inl e | Inr sc' \<Rightarrow> commentloop strtod sc')
      else Inr sc)"
  by pat_completeness auto
termination
proof (relation "measure (\<lambda>(strtod, sc). pending sc)", goal_cases)
  case 1
  show ?case by simp
next
  case (2 strtod sc sc')
  then have "rawtoken sc 0 \<noteq> RawFLEND" and "nextrawtoken strtod 2 sc = Inr sc'" by simp_all
  from nextrawtoken_lt [OF _ this] show ?case by simp
qed

declare commentloop.simps [simp del]

lemma commentloop_le: "commentloop strtod sc = Inr sc' \<Longrightarrow> pending sc' \<le> pending sc"
proof (induction strtod sc rule: commentloop.induct)
  case (1 strtod sc)
  show ?case
  proof (cases "\<not> (rawtoken sc 0 = RawASTERISK \<and> rawtoken sc 1 = RawSLASH) \<and> rawtoken sc 0 \<noteq> RawFLEND")
    case True
    with "1.prems" obtain sc1 where n: "nextrawtoken strtod 2 sc = Inr sc1"
      and c: "commentloop strtod sc1 = Inr sc'"
      by (subst (asm) commentloop.simps) (auto split: sum.splits)
    from "1.IH" [OF True n c] nextrawtoken_le [OF n] show ?thesis by simp
  next
    case False
    with "1.prems" have "sc' = sc" by (subst (asm) commentloop.simps) auto
    then show ?thesis by simp
  qed
qed

text \<open>One round of the loop of \<^verbatim>\<open>Reader::processtokens\<close>, on the tokens appended so far.\<close>

definition processtoken ::
  "conversion \<Rightarrow> Scanner \<Rightarrow> ProcessedToken list \<Rightarrow> error + (Scanner \<times> ProcessedToken list)" where
  "processtoken strtod sc out =
     (if rawtoken sc 0 = RawSLASH \<and> rawtoken sc 1 = RawASTERISK
      then and_then (nextrawtoken strtod 2 sc) (\<lambda>sc.
           and_then (commentloop strtod sc) (\<lambda>sc.
           and_then (nextrawtoken strtod 2 sc) (\<lambda>sc. Inr (sc, out))))
      else and_then (classify sc) (\<lambda>(t, howmany).
           and_then (nextrawtoken strtod howmany sc) (\<lambda>sc. Inr (sc, out @ [t]))))"

lemma classify_pos: "classify sc = Inr (t, k) \<Longrightarrow> 0 < k"
  by (auto simp: classify_def Let_def split: if_splits)

lemma processtoken_lt:
  assumes "rawtoken sc 0 \<noteq> RawFLEND" and "processtoken strtod sc out = Inr (sc', out')"
  shows "pending sc' < pending sc"
proof (cases "rawtoken sc 0 = RawSLASH \<and> rawtoken sc 1 = RawASTERISK")
  case True
  with assms(2) obtain sc1 sc2 where a: "nextrawtoken strtod 2 sc = Inr sc1"
    and b: "commentloop strtod sc1 = Inr sc2" and c: "nextrawtoken strtod 2 sc2 = Inr sc'"
    by (auto simp: processtoken_def and_then_def split: sum.splits)
  from nextrawtoken_lt [OF _ assms(1) a] commentloop_le [OF b] nextrawtoken_le [OF c]
  show ?thesis by simp
next
  case False
  with assms(2) obtain t k where a: "classify sc = Inr (t, k)"
    and b: "nextrawtoken strtod k sc = Inr sc'"
    by (auto simp: processtoken_def and_then_def split: sum.splits)
  from nextrawtoken_lt [OF classify_pos [OF a] assms(1) b] show ?thesis .
qed

function processtokens :: "conversion \<Rightarrow> Scanner \<Rightarrow> ProcessedToken list \<Rightarrow> error + ProcessedToken list" where
  "processtokens strtod sc out =
     (if rawtoken sc 0 = RawFLEND then Inr out
      else (case processtoken strtod sc out of
              Inl e \<Rightarrow> Inl e
            | Inr (sc', out') \<Rightarrow> processtokens strtod sc' out'))"
  by pat_completeness auto
termination
proof (relation "measure (\<lambda>(strtod, sc, out). pending sc)", goal_cases)
  case 1
  show ?case by simp
next
  case (2 strtod sc out p sc' out')
  then have "rawtoken sc 0 \<noteq> RawFLEND" and "processtoken strtod sc out = Inr (sc', out')" by simp_all
  from processtoken_lt [OF this] show ?case by simp
qed

declare processtokens.simps [simp del]

section \<open>Reading a file\<close>

text \<open>
  The start of \<^verbatim>\<open>Reader::read\<close>: the first five tokens fill the window.  The reader is
  constructed on an open file with an empty line buffer and default tokens.
\<close>

fun readfirst :: "conversion \<Rightarrow> nat \<Rightarrow> nat \<Rightarrow> Scanner \<Rightarrow> error + Scanner" where
  "readfirst strtod 0 i sc = Inr sc"
| "readfirst strtod (Suc n) i sc =
     (case nexttoken strtod (lexer sc) of
        Inl e \<Rightarrow> Inl e
      | Inr (t, lx) \<Rightarrow> readfirst strtod n (i + 1) (sc\<lparr>lexer := lx, rawtokens := (rawtokens sc)(i := t)\<rparr>))"

definition new_Scanner :: "string \<Rightarrow> Scanner" where
  "new_Scanner text =
     \<lparr>lexer = \<lparr>infile = text, eofbit = False, linebuffer = [], linebufferpos = 0\<rparr>,
      rawtokens = (\<lambda>i. RawNONE), rawtokenpos = 0\<rparr>"

text \<open>
  The first half of \<^verbatim>\<open>Reader::read\<close>, up to and including \<^verbatim>\<open>processtokens\<close>: the vector
  \<^verbatim>\<open>processedtokens\<close> of a file with the characters \<open>text\<close>.
\<close>

definition tokenize :: "conversion \<Rightarrow> string \<Rightarrow> error + ProcessedToken list" where
  "tokenize strtod text =
     and_then (readfirst strtod 5 0 (new_Scanner text)) (\<lambda>sc. processtokens strtod sc [])"

text \<open>\<^verbatim>\<open>Reader::read\<close> on a file with the characters \<open>text\<close>.\<close>

definition read :: "conversion \<Rightarrow> addition \<Rightarrow> ObjectiveSense \<Rightarrow> string \<Rightarrow> error + Model" where
  "read strtod fadd sns text = and_then (tokenize strtod text) (read_tokens fadd sns)"

section \<open>Properties of the section splitter\<close>

text \<open>
  The occurrence of a section keyword at \<open>i\<close> has content when the next token exists
  and is not a section keyword; only such an occurrence is recorded in the map.
\<close>


definition has_content :: "ProcessedToken list \<Rightarrow> nat \<Rightarrow> bool" where
  "has_content toks i = (i + 1 < length toks \<and> \<not> is_SECID (toks ! (i + 1)))"

lemma splitloop_end: "\<not> it < length toks \<Longrightarrow> splitloop toks it s = Inr s"
  by (cases s) (simp add: splitloop.simps)

lemma splitloop_other:
  "it < length toks \<Longrightarrow> \<not> is_SECID (toks ! it) \<Longrightarrow>
   splitloop toks it (c, m) = splitloop toks (it + 1) (c, m)"
  by (simp add: splitloop.simps)

lemma splitloop_secid:
  "it < length toks \<Longrightarrow> toks ! it = SECID k \<Longrightarrow>
   splitloop toks it (c, m) =
     (let m1 = (if c \<noteq> NONE then set_second m c it else m)
      in if k \<in> dom m1 then Inl DuplicateSection
         else splitloop toks (it + 1)
                (if has_content toks it then (k, set_first m1 k (it + 1)) else (NONE, m1)))"
  by (subst splitloop.simps) (auto simp: Let_def has_content_def)

lemma dom_set_second: "dom (set_second m c i) = insert c (dom m)"
  by (simp add: set_second_def)

lemma dom_set_first: "dom (set_first m c i) = insert c (dom m)"
  by (simp add: set_first_def)

definition occ :: "ProcessedToken list \<Rightarrow> nat \<Rightarrow> nat \<Rightarrow> LpSectionKeyword set" where
  "occ toks a b = {k. \<exists>i. a \<le> i \<and> i < b \<and> toks ! i = SECID k \<and> has_content toks i}"

lemma ex_range_split:
  assumes ab: "(a::nat) < b"
  shows "(\<exists>i. a \<le> i \<and> i < b \<and> P i) = (P a \<or> (\<exists>i. Suc a \<le> i \<and> i < b \<and> P i))"
proof
  assume "\<exists>i. a \<le> i \<and> i < b \<and> P i"
  then obtain i where i: "a \<le> i" "i < b" "P i" by blast
  show "P a \<or> (\<exists>i. Suc a \<le> i \<and> i < b \<and> P i)"
  proof (cases "i = a")
    case True
    with i show ?thesis by simp
  next
    case False
    with i have "Suc a \<le> i" by arith
    with i show ?thesis by blast
  qed
next
  assume "P a \<or> (\<exists>i. Suc a \<le> i \<and> i < b \<and> P i)"
  then show "\<exists>i. a \<le> i \<and> i < b \<and> P i"
  proof
    assume "P a"
    with ab show ?thesis by blast
  next
    assume "\<exists>i. Suc a \<le> i \<and> i < b \<and> P i"
    then obtain i where "Suc a \<le> i" "i < b" "P i" by blast
    then have "a \<le> i \<and> i < b \<and> P i" by simp
    then show ?thesis by blast
  qed
qed

lemma occ_empty: "occ toks a a = {}"
  by (simp add: occ_def)

lemma occ_step:
  assumes "a < b"
  shows "occ toks a b =
    (if has_content toks a \<and> is_SECID (toks ! a) then {tok_keyword (toks ! a)} else {})
      \<union> occ toks (Suc a) b"
proof (rule set_eqI)
  fix k
  have "(k \<in> occ toks a b) =
        ((toks ! a = SECID k \<and> has_content toks a) \<or> k \<in> occ toks (Suc a) b)"
    unfolding occ_def mem_Collect_eq using assms by (rule ex_range_split)
  also have "(toks ! a = SECID k \<and> has_content toks a) =
        (k \<in> (if has_content toks a \<and> is_SECID (toks ! a) then {tok_keyword (toks ! a)} else {}))"
    by (cases "toks ! a") auto
  finally show "(k \<in> occ toks a b) =
    (k \<in> (if has_content toks a \<and> is_SECID (toks ! a) then {tok_keyword (toks ! a)} else {})
      \<union> occ toks (Suc a) b)"
    by simp
qed

lemma ex_from_split:
  "(\<exists>j. (it::nat) \<le> j \<and> Q j) \<longleftrightarrow> Q it \<or> (\<exists>j. it + 1 \<le> j \<and> Q j)"
proof -
  have "\<And>j. (it \<le> j) = (j = it \<or> it + 1 \<le> j)" by arith
  then show ?thesis by auto
qed

lemma splitloop_fail:
  "(c \<noteq> NONE \<longrightarrow> c \<in> dom m) \<Longrightarrow>
   splitloop toks it (c, m) = Inl e \<longleftrightarrow>
     e = DuplicateSection \<and>
     (\<exists>j. it \<le> j \<and> j < length toks \<and> is_SECID (toks ! j) \<and>
        tok_keyword (toks ! j) \<in> dom m \<union> occ toks it j)"
proof (induction "length toks - it" arbitrary: it c m)
  case 0
  then show ?case by (simp add: splitloop_end)
next
  case (Suc n)
  then have lt: "it < length toks" and n: "n = length toks - (it + 1)" by auto
  define X where
    "X = (if has_content toks it \<and> is_SECID (toks ! it) then {tok_keyword (toks ! it)} else {})"
  have tail: "\<And>j. it + 1 \<le> j \<Longrightarrow> occ toks it j = X \<union> occ toks (it + 1) j"
    unfolding X_def by (subst occ_step) auto
  have rhs: "(\<exists>j. it \<le> j \<and> j < length toks \<and> is_SECID (toks ! j) \<and>
        tok_keyword (toks ! j) \<in> dom m \<union> occ toks it j) =
     ((is_SECID (toks ! it) \<and> tok_keyword (toks ! it) \<in> dom m) \<or>
      (\<exists>j. it + 1 \<le> j \<and> j < length toks \<and> is_SECID (toks ! j) \<and>
        tok_keyword (toks ! j) \<in> (dom m \<union> X) \<union> occ toks (it + 1) j))"
    by (subst ex_from_split) (simp add: lt occ_empty tail Un_assoc cong: conj_cong)
  show ?case
  proof (cases "is_SECID (toks ! it)")
    case False
    have step: "splitloop toks it (c, m) = splitloop toks (it + 1) (c, m)"
      using lt False by (rule splitloop_other)
    have ih: "(splitloop toks (it + 1) (c, m) = Inl e) =
       (e = DuplicateSection \<and>
        (\<exists>j. it + 1 \<le> j \<and> j < length toks \<and> is_SECID (toks ! j) \<and>
           tok_keyword (toks ! j) \<in> dom m \<union> occ toks (it + 1) j))"
      using Suc.hyps(1) [OF n Suc.prems] .
    have "X = {}" using False by (simp add: X_def)
    then show ?thesis
      unfolding step ih rhs using False by simp
  next
    case True
    then obtain k where k: "toks ! it = SECID k" by (cases "toks ! it") auto
    define m1 where "m1 = (if c \<noteq> NONE then set_second m c it else m)"
    have dm1: "dom m1 = dom m"
      using Suc.prems by (auto simp: m1_def dom_set_second)
    show ?thesis
    proof (cases "k \<in> dom m")
      case in_dom: True
      then have "splitloop toks it (c, m) = Inl DuplicateSection"
        using splitloop_secid [OF lt k, of c m] dm1 by (simp add: m1_def Let_def)
      then show ?thesis
        unfolding rhs using k in_dom by auto
    next
      case not_in: False
      define s where "s = (if has_content toks it then (k, set_first m1 k (it + 1)) else (NONE, m1))"
      have step: "splitloop toks it (c, m) = splitloop toks (it + 1) s"
        using splitloop_secid [OF lt k, of c m] dm1 not_in
        by (simp add: m1_def [symmetric] s_def Let_def)
      obtain c' m' where s: "s = (c', m')" by (cases s)
      have pre: "c' \<noteq> NONE \<longrightarrow> c' \<in> dom m'"
      proof (cases "has_content toks it")
        case True
        then have "c' = k" "m' = set_first m1 k (it + 1)" using s by (auto simp: s_def)
        then show ?thesis by (simp add: dom_set_first)
      next
        case False
        then have "c' = NONE" using s by (simp add: s_def)
        then show ?thesis by simp
      qed
      have dm': "dom m' = dom m \<union> X"
      proof (cases "has_content toks it")
        case True
        then have "m' = set_first m1 k (it + 1)" using s by (auto simp: s_def)
        then show ?thesis using True dm1 k by (simp add: dom_set_first X_def)
      next
        case False
        then have "m' = m1" using s by (auto simp: s_def)
        then show ?thesis using False dm1 by (simp add: X_def)
      qed
      have ih: "(splitloop toks (it + 1) (c', m') = Inl e) =
        (e = DuplicateSection \<and>
         (\<exists>j. it + 1 \<le> j \<and> j < length toks \<and> is_SECID (toks ! j) \<and>
            tok_keyword (toks ! j) \<in> dom m' \<union> occ toks (it + 1) j))"
        using Suc.hyps(1) [OF n pre] .
      show ?thesis
        unfolding step s ih rhs dm' using k not_in by simp
    qed
  qed
qed


lemma occ_ge_empty: "b \<le> a \<Longrightarrow> occ toks a b = {}"
  by (auto simp: occ_def)

lemma splitloop_dom:
  "(c \<noteq> NONE \<longrightarrow> c \<in> dom m) \<Longrightarrow> splitloop toks it (c, m) = Inr (c', m') \<Longrightarrow>
   dom m' = dom m \<union> occ toks it (length toks) \<and> (c' \<noteq> NONE \<longrightarrow> c' \<in> dom m')"
proof (induction "length toks - it" arbitrary: it c m)
  case 0
  then show ?case by (simp add: splitloop_end occ_ge_empty)
next
  case (Suc n)
  then have lt: "it < length toks" and n: "n = length toks - (it + 1)" by auto
  define X where
    "X = (if has_content toks it \<and> is_SECID (toks ! it) then {tok_keyword (toks ! it)} else {})"
  have tail: "occ toks it (length toks) = X \<union> occ toks (it + 1) (length toks)"
    unfolding X_def using lt by (subst occ_step) auto
  show ?case
  proof (cases "is_SECID (toks ! it)")
    case False
    have step: "splitloop toks it (c, m) = splitloop toks (it + 1) (c, m)"
      using lt False by (rule splitloop_other)
    have "X = {}" using False by (simp add: X_def)
    have "dom m' = dom m \<union> occ toks (it + 1) (length toks) \<and> (c' \<noteq> NONE \<longrightarrow> c' \<in> dom m')"
      using Suc.hyps(1) [OF n Suc.prems(1)] Suc.prems(2) unfolding step by blast
    then show ?thesis
      unfolding tail \<open>X = {}\<close> by blast
  next
    case True
    then obtain k where k: "toks ! it = SECID k" by (cases "toks ! it") auto
    define m1 where "m1 = (if c \<noteq> NONE then set_second m c it else m)"
    have dm1: "dom m1 = dom m"
      using Suc.prems by (auto simp: m1_def dom_set_second)
    define s where "s = (if has_content toks it then (k, set_first m1 k (it + 1)) else (NONE, m1))"
    have not_in: "k \<notin> dom m" and step: "splitloop toks it (c, m) = splitloop toks (it + 1) s"
      using splitloop_secid [OF lt k, of c m] dm1 Suc.prems(2)
      by (auto simp: m1_def [symmetric] s_def Let_def split: if_splits)
    obtain c1 m2 where s: "s = (c1, m2)" by (cases s)
    have pre: "c1 \<noteq> NONE \<longrightarrow> c1 \<in> dom m2"
    proof (cases "has_content toks it")
      case True
      then have "c1 = k" "m2 = set_first m1 k (it + 1)" using s by (auto simp: s_def)
      then show ?thesis by (simp add: dom_set_first)
    next
      case False
      then have "c1 = NONE" using s by (simp add: s_def)
      then show ?thesis by simp
    qed
    have dm2: "dom m2 = dom m \<union> X"
    proof (cases "has_content toks it")
      case True
      then have "m2 = set_first m1 k (it + 1)" using s by (auto simp: s_def)
      then show ?thesis using True dm1 k by (simp add: dom_set_first X_def)
    next
      case False
      then have "m2 = m1" using s by (auto simp: s_def)
      then show ?thesis using False dm1 by (simp add: X_def)
    qed
    have "dom m' = dom m2 \<union> occ toks (it + 1) (length toks) \<and> (c' \<noteq> NONE \<longrightarrow> c' \<in> dom m')"
      using Suc.hyps(1) [OF n pre] Suc.prems(2) unfolding step s by blast
    then show ?thesis
      unfolding tail dm2 by blast
  qed
qed

lemma splittokens_fail_iff:
  "splittokens toks = Inl e \<longleftrightarrow>
     e = DuplicateSection \<and>
     (\<exists>i j k. i < j \<and> j < length toks \<and> toks ! i = SECID k \<and> has_content toks i
        \<and> toks ! j = SECID k)"
proof -
  have "splittokens toks = Inl e \<longleftrightarrow> splitloop toks 0 (NONE, Map.empty) = Inl e"
    by (auto simp: splittokens_def split: sum.splits)
  also have "\<dots> \<longleftrightarrow> e = DuplicateSection \<and>
     (\<exists>j. j < length toks \<and> is_SECID (toks ! j) \<and> tok_keyword (toks ! j) \<in> occ toks 0 j)"
    by (subst splitloop_fail) simp_all
  also have "(\<exists>j. j < length toks \<and> is_SECID (toks ! j) \<and> tok_keyword (toks ! j) \<in> occ toks 0 j)
     \<longleftrightarrow> (\<exists>i j k. i < j \<and> j < length toks \<and> toks ! i = SECID k \<and> has_content toks i
        \<and> toks ! j = SECID k)"
    (is "?A = ?B")
  proof
    assume ?A
    then obtain j i where "j < length toks" "is_SECID (toks ! j)" "i < j"
        "toks ! i = SECID (tok_keyword (toks ! j))" "has_content toks i"
      by (auto simp: occ_def)
    then have "i < j \<and> j < length toks \<and> toks ! i = SECID (tok_keyword (toks ! j))
       \<and> has_content toks i \<and> toks ! j = SECID (tok_keyword (toks ! j))"
      by simp
    then show ?B by blast
  next
    assume ?B
    then obtain i j k where "i < j" "j < length toks" "toks ! i = SECID k" "has_content toks i"
       "toks ! j = SECID k" by blast
    then have "j < length toks \<and> is_SECID (toks ! j) \<and> tok_keyword (toks ! j) \<in> occ toks 0 j"
      by (auto simp: occ_def)
    then show ?A by blast
  qed
  finally show ?thesis .
qed

lemma splittokens_dom:
  assumes "splittokens toks = Inr m"
  shows "dom m = occ toks 0 (length toks)"
proof -
  obtain c' m' where r: "splitloop toks 0 (NONE, Map.empty) = Inr (c', m')"
    and m: "m = (if c' \<noteq> NONE then set_second m' c' (length toks) else m')"
    using assms by (auto simp: splittokens_def split: sum.splits)
  have "dom m' = occ toks 0 (length toks) \<and> (c' \<noteq> NONE \<longrightarrow> c' \<in> dom m')"
    using splitloop_dom [OF _ r] by fastforce
  then have d: "dom m' = occ toks 0 (length toks)" and c: "c' \<noteq> NONE \<Longrightarrow> c' \<in> dom m'"
    by auto
  show ?thesis
  proof (cases "c' = NONE")
    case True
    then show ?thesis unfolding m using d by simp
  next
    case False
    then have "insert c' (dom m') = dom m'" using c by blast
    then show ?thesis unfolding m using d False by (simp add: dom_set_second)
  qed
qed


text \<open>
  C9.  The splitter fails exactly when a section keyword occurs again after an earlier
  occurrence of the same keyword that was recorded, that is, one with content; the only
  error it raises is \<open>DuplicateSection\<close>.  So a keyword may occur any number of times
  as long as every occurrence but the last is empty.
\<close>

theorem splittokens_fails_iff_recorded_before:
  "splittokens toks = Inl e \<longleftrightarrow>
     e = DuplicateSection \<and>
     (\<exists>i j k. i < j \<and> j < length toks \<and> toks ! i = SECID k \<and> has_content toks i
        \<and> toks ! j = SECID k)"
  by (rule splittokens_fail_iff)

theorem splittokens_fails_iff_recorded_before_witness:
  "splittokens [SECID BOUNDS, VARID ''x'', FREE, SECID BOUNDS] = Inl DuplicateSection
   \<and> splittokens [SECID BOUNDS, SECID BOUNDS, SECID BOUNDS, VARID ''x'', FREE]
       \<noteq> Inl DuplicateSection"
proof
  let ?t = "[SECID BOUNDS, VARID ''x'', FREE, SECID BOUNDS]"
  have "(0::nat) < 3 \<and> 3 < length ?t \<and> ?t ! 0 = SECID BOUNDS \<and> has_content ?t 0
        \<and> ?t ! 3 = SECID BOUNDS"
    by (simp add: has_content_def)
  then have "\<exists>i j k. i < j \<and> j < length ?t \<and> ?t ! i = SECID k \<and> has_content ?t i
        \<and> ?t ! j = SECID k"
    by blast
  then show "splittokens ?t = Inl DuplicateSection"
    using splittokens_fails_iff_recorded_before [of ?t DuplicateSection] by simp
next
  let ?t = "[SECID BOUNDS, SECID BOUNDS, SECID BOUNDS, VARID ''x'', FREE]"
  have "\<not> (\<exists>i j k. i < j \<and> j < length ?t \<and> ?t ! i = SECID k \<and> has_content ?t i
        \<and> ?t ! j = SECID k)"
    by (auto simp: has_content_def less_Suc_eq nth_Cons')
  then show "splittokens ?t \<noteq> Inl DuplicateSection"
    using splittokens_fails_iff_recorded_before [of ?t DuplicateSection] by simp
qed

text \<open>
  C3, as amended.  A stream in which a section keyword occurs again after an occurrence
  of the same keyword that has content fails with \<open>DuplicateSection\<close>; in every stream
  the splitter accepts, the section map has an entry exactly for the keywords that
  occur with content, and each keyword occurs with content at most once.
\<close>

theorem splittokens_duplicate_after_content:
  "(i < j \<and> j < length toks \<and> toks ! i = SECID k \<and> has_content toks i \<and> toks ! j = SECID k
      \<longrightarrow> splittokens toks = Inl DuplicateSection)
   \<and> (splittokens toks = Inr m \<longrightarrow>
        dom m = {k. \<exists>i. i < length toks \<and> toks ! i = SECID k \<and> has_content toks i}
        \<and> (\<forall>k i i'. i < length toks \<and> i' < length toks
              \<and> toks ! i = SECID k \<and> has_content toks i
              \<and> toks ! i' = SECID k \<and> has_content toks i' \<longrightarrow> i = i'))"
proof (intro conjI impI)
  assume "i < j \<and> j < length toks \<and> toks ! i = SECID k \<and> has_content toks i
    \<and> toks ! j = SECID k"
  then have "\<exists>i j k. i < j \<and> j < length toks \<and> toks ! i = SECID k \<and> has_content toks i
        \<and> toks ! j = SECID k"
    by blast
  then show "splittokens toks = Inl DuplicateSection"
    using splittokens_fail_iff [of toks DuplicateSection] by simp
next
  assume ok: "splittokens toks = Inr m"
  show "dom m = {k. \<exists>i. i < length toks \<and> toks ! i = SECID k \<and> has_content toks i}"
    using splittokens_dom [OF ok] by (simp add: occ_def)
next
  assume ok: "splittokens toks = Inr m"
  then have none: "\<not> (\<exists>i j k. i < j \<and> j < length toks \<and> toks ! i = SECID k
      \<and> has_content toks i \<and> toks ! j = SECID k)"
    using splittokens_fail_iff [of toks DuplicateSection] by simp
  show "\<forall>k i i'. i < length toks \<and> i' < length toks
              \<and> toks ! i = SECID k \<and> has_content toks i
              \<and> toks ! i' = SECID k \<and> has_content toks i' \<longrightarrow> i = i'"
  proof (intro allI impI)
    fix k i i'
    assume a: "i < length toks \<and> i' < length toks
              \<and> toks ! i = SECID k \<and> has_content toks i
              \<and> toks ! i' = SECID k \<and> has_content toks i'"
    show "i = i'"
    proof (rule ccontr)
      assume "i \<noteq> i'"
      then consider "i < i'" | "i' < i" by arith
      then show False
      proof cases
        case 1
        with a have "i < i' \<and> i' < length toks \<and> toks ! i = SECID k \<and> has_content toks i
          \<and> toks ! i' = SECID k" by simp
        with none show False by blast
      next
        case 2
        with a have "i' < i \<and> i < length toks \<and> toks ! i' = SECID k \<and> has_content toks i'
          \<and> toks ! i = SECID k" by simp
        with none show False by blast
      qed
    qed
  qed
qed

lemma splittokens_twice_accepted:
  "splittokens [SECID BOUNDS, SECID BOUNDS, VARID ''x'', FREE] = Inr [BOUNDS \<mapsto> (2, 4)]"
  by (simp add: splittokens_def splitloop.simps set_first_def set_second_def entry_def
        eval_nat_numeral)

theorem splittokens_duplicate_after_content_witness:
  "splittokens [SECID BOUNDS, VARID ''x'', FREE, SECID BOUNDS] = Inl DuplicateSection
   \<and> dom [BOUNDS \<mapsto> (2::nat, 4::nat)] =
       {k. \<exists>i. i < length [SECID BOUNDS, SECID BOUNDS, VARID ''x'', FREE]
            \<and> [SECID BOUNDS, SECID BOUNDS, VARID ''x'', FREE] ! i = SECID k
            \<and> has_content [SECID BOUNDS, SECID BOUNDS, VARID ''x'', FREE] i}"
proof
  let ?t = "[SECID BOUNDS, VARID ''x'', FREE, SECID BOUNDS]"
  have "(0::nat) < 3 \<and> 3 < length ?t \<and> ?t ! 0 = SECID BOUNDS \<and> has_content ?t 0
        \<and> ?t ! 3 = SECID BOUNDS"
    by (simp add: has_content_def)
  then show "splittokens ?t = Inl DuplicateSection"
    using splittokens_duplicate_after_content [of 0 3 ?t BOUNDS] by blast
next
  let ?t = "[SECID BOUNDS, SECID BOUNDS, VARID ''x'', FREE]"
  show "dom [BOUNDS \<mapsto> (2::nat, 4::nat)] =
       {k. \<exists>i. i < length ?t \<and> ?t ! i = SECID k \<and> has_content ?t i}"
    using splittokens_duplicate_after_content [of _ _ ?t _ "[BOUNDS \<mapsto> (2, 4)]"]
      splittokens_twice_accepted by blast
qed

text \<open>
  C3 as stated fails: the keyword of the bounds section occurs twice in this stream,
  the first time with nothing after it, and the splitter accepts the stream.
\<close>

theorem splittokens_same_keyword_twice_accepted:
  "[SECID BOUNDS, SECID BOUNDS, VARID ''x'', FREE] ! 0 = SECID BOUNDS
   \<and> [SECID BOUNDS, SECID BOUNDS, VARID ''x'', FREE] ! 1 = SECID BOUNDS
   \<and> splittokens [SECID BOUNDS, SECID BOUNDS, VARID ''x'', FREE] \<noteq> Inl DuplicateSection"
  by (simp add: splittokens_def splitloop.simps set_first_def set_second_def entry_def)

section \<open>What the processors leave alone\<close>

text \<open>
  Only the objective processor assigns to the objective and the sense of the model.
  \<open>same_objective b b'\<close>: the builder \<open>b'\<close> has the objective and the sense of \<open>b\<close>.
\<close>

definition same_objective :: "Builder \<Rightarrow> Builder \<Rightarrow> bool" where
  "same_objective b b' =
     (objective (model b') = objective (model b) \<and> sense (model b') = sense (model b))"

lemma same_objective_refl: "same_objective b b"
  by (simp add: same_objective_def)

lemma same_objective_trans:
  "same_objective b b1 \<Longrightarrow> same_objective b1 b2 \<Longrightarrow> same_objective b b2"
  by (simp add: same_objective_def)

lemma getvarbyname_frame: "getvarbyname b n = (v, b1) \<Longrightarrow> same_objective b b1"
  by (cases "b_variables b n") (auto simp: getvarbyname_def same_objective_def)

lemma setvar_frame: "same_objective b (setvar b n v)"
  by (simp add: setvar_def same_objective_def)

lemma getvar_setvar_frame:
  "getvarbyname b n = (v, b1) \<Longrightarrow> same_objective b (setvar b1 n w)"
  by (cases "b_variables b n") (auto simp: getvarbyname_def same_objective_def setvar_def)

lemma getvar2_frame:
  "getvarbyname b n = (v, b1) \<Longrightarrow> getvarbyname b1 n' = (v', b2) \<Longrightarrow> same_objective b b2"
  by (blast intro: same_objective_trans getvarbyname_frame)

lemma parsequadterm_frame:
  "parsequadterm toks sec_end it expr b = Inr (Some (it', expr', b')) \<Longrightarrow> same_objective b b'"
  unfolding parsequadterm_def Let_def
  by (simp split: if_splits prod.splits) (blast intro: getvar2_frame)+

lemma parsequad_frame:
  "parsequad toks sec_end (it, expr, b) = Inr (it', expr', b') \<Longrightarrow> same_objective b b'"
proof (induction "length toks - it" arbitrary: it expr b rule: less_induct)
  case less
  note prems = less.prems
  show ?case
  proof (cases "it = sec_end \<or> \<not> in_range toks sec_end it \<or> is_BRKCL (toks ! it)")
    case True
    with prems have "b' = b"
      by (subst (asm) parsequad.simps) (auto split: if_splits)
    then show ?thesis by (simp add: same_objective_refl)
  next
    case False
    then have lt: "it < length toks" by (simp add: in_range_def)
    from False prems have r:
      "(case parsequadterm toks sec_end it expr b of
           Inl e \<Rightarrow> Inl e
         | Inr None \<Rightarrow> Inr (it, expr, b)
         | Inr (Some s) \<Rightarrow> parsequad toks sec_end s) = Inr (it', expr', b')"
      by (subst (asm) parsequad.simps) simp
    show ?thesis
    proof (cases "parsequadterm toks sec_end it expr b")
      case (Inl e)
      with r show ?thesis by simp
    next
      case (Inr o1)
      show ?thesis
      proof (cases o1)
        case None
        with r Inr show ?thesis by (simp add: same_objective_refl)
      next
        case (Some s)
        obtain j expr1 b1 where s: "s = (j, expr1, b1)" by (cases s)
        have "same_objective b b1" "it < j"
          using Inr Some s by (auto dest: parsequadterm_frame parsequadterm_gt)
        moreover have "same_objective b1 b'"
          using less.hyps [of j expr1 b1] r Inr Some s lt \<open>it < j\<close> by simp
        ultimately show ?thesis by (blast intro: same_objective_trans)
      qed
    qed
  qed
qed


lemma parseterm_frame:
  assumes "parseterm fadd toks sec_end isobj it expr b = Inr (Some (it', expr', b'))"
  shows "same_objective b b'"
proof (cases "\<not> is_CONST (toks ! it) \<and> \<not> is_VARID (toks ! it)
              \<and> it + 1 \<noteq> sec_end \<and> is_BRKOP (toks ! it)")
  case True
  with assms obtain it1 where
      q: "parsequad toks sec_end (it + 1, expr, b) = Inr (it1, expr', b')"
    by (auto simp: parseterm_def Let_def split: sum.splits)
  then show ?thesis by (rule parsequad_frame)
next
  case False
  with assms show ?thesis
    unfolding parseterm_def Let_def
    by (simp split: if_splits prod.splits)
       (blast intro: getvarbyname_frame same_objective_refl)+
qed

lemma parseloop_frame:
  "parseloop fadd toks sec_end isobj (it, expr, b) = Inr (it', expr', b') \<Longrightarrow> same_objective b b'"
proof (induction "length toks - it" arbitrary: it expr b rule: less_induct)
  case less
  show ?case
  proof (cases "it = sec_end \<or> \<not> in_range toks sec_end it")
    case True
    with less.prems have "b' = b"
      by (subst (asm) parseloop.simps) (auto split: if_splits)
    then show ?thesis by (simp add: same_objective_refl)
  next
    case False
    then have lt: "it < length toks" by (simp add: in_range_def)
    from False less.prems have r:
      "(case parseterm fadd toks sec_end isobj it expr b of
           Inl e \<Rightarrow> Inl e
         | Inr None \<Rightarrow> Inr (it, expr, b)
         | Inr (Some s) \<Rightarrow> parseloop fadd toks sec_end isobj s) = Inr (it', expr', b')"
      by (subst (asm) parseloop.simps) simp
    show ?thesis
    proof (cases "parseterm fadd toks sec_end isobj it expr b")
      case (Inl e)
      with r show ?thesis by simp
    next
      case (Inr o1)
      show ?thesis
      proof (cases o1)
        case None
        with r Inr show ?thesis by (simp add: same_objective_refl)
      next
        case (Some s)
        obtain j expr1 b1 where s: "s = (j, expr1, b1)" by (cases s)
        have "same_objective b b1" "it < j"
          using Inr Some s by (auto dest: parseterm_frame parseterm_gt)
        moreover have "same_objective b1 b'"
          using less.hyps [of j expr1 b1] r Inr Some s lt \<open>it < j\<close> by simp
        ultimately show ?thesis by (blast intro: same_objective_trans)
      qed
    qed
  qed
qed

lemma parseexpression_frame:
  "parseexpression fadd toks it sec_end expr isobj b = Inr (it', expr', b')
   \<Longrightarrow> same_objective b b'"
  by (auto simp: parseexpression_def split: if_splits dest!: parseloop_frame)

lemma processcon_frame:
  "processcon fadd toks sec_end it b = Inr (it', b') \<Longrightarrow> same_objective b b'"
  unfolding processcon_def Let_def
  by (auto split: sum.splits if_splits LpComparisonType.splits
        dest!: parseexpression_frame simp: same_objective_def)

lemma consec_loop_frame:
  "consec_loop fadd toks sec_end (it, b) = Inr (it', b') \<Longrightarrow> same_objective b b'"
proof (induction "length toks - it" arbitrary: it b rule: less_induct)
  case less
  show ?case
  proof (cases "it = sec_end \<or> \<not> in_range toks sec_end it")
    case True
    with less.prems have "b' = b"
      by (subst (asm) consec_loop.simps) (auto split: if_splits)
    then show ?thesis by (simp add: same_objective_refl)
  next
    case False
    then have lt: "it < length toks" by (simp add: in_range_def)
    from False less.prems have r:
      "(case processcon fadd toks sec_end it b of Inl e \<Rightarrow> Inl e | Inr s \<Rightarrow> consec_loop fadd toks sec_end s)
         = Inr (it', b')"
      by (subst (asm) consec_loop.simps) simp
    then obtain s where s: "processcon fadd toks sec_end it b = Inr s"
        and l: "consec_loop fadd toks sec_end s = Inr (it', b')"
      by (auto split: sum.splits)
    obtain j b1 where jb: "s = (j, b1)" by (cases s)
    have "same_objective b b1" "it < j"
      using s jb by (auto dest: processcon_frame processcon_gt)
    moreover have "same_objective b1 b'"
      using less.hyps [of j b1] l jb lt \<open>it < j\<close> by simp
    ultimately show ?thesis by (blast intro: same_objective_trans)
  qed
qed

lemma processbound_frame:
  "processbound toks sec_end it b = Inr (it', b') \<Longrightarrow> same_objective b b'"
  unfolding processbound_def Let_def
  by (simp split: if_splits prod.splits LpComparisonType.splits)
     (blast intro: getvar_setvar_frame)+

lemma boundssec_loop_frame:
  "boundssec_loop toks sec_end (it, b) = Inr (it', b') \<Longrightarrow> same_objective b b'"
proof (induction "length toks - it" arbitrary: it b rule: less_induct)
  case less
  show ?case
  proof (cases "it = sec_end \<or> \<not> in_range toks sec_end it")
    case True
    with less.prems have "b' = b"
      by (subst (asm) boundssec_loop.simps) (auto split: if_splits)
    then show ?thesis by (simp add: same_objective_refl)
  next
    case False
    then have lt: "it < length toks" by (simp add: in_range_def)
    from False less.prems have r:
      "(case processbound toks sec_end it b of Inl e \<Rightarrow> Inl e | Inr s \<Rightarrow> boundssec_loop toks sec_end s)
         = Inr (it', b')"
      by (subst (asm) boundssec_loop.simps) simp
    then obtain s where s: "processbound toks sec_end it b = Inr s"
        and l: "boundssec_loop toks sec_end s = Inr (it', b')"
      by (auto split: sum.splits)
    obtain j b1 where jb: "s = (j, b1)" by (cases s)
    have "same_objective b b1" "it < j"
      using s jb by (auto dest: processbound_frame processbound_gt)
    moreover have "same_objective b1 b'"
      using less.hyps [of j b1] l jb lt \<open>it < j\<close> by simp
    ultimately show ?thesis by (blast intro: same_objective_trans)
  qed
qed

lemma typesec_loop_frame:
  "typesec_loop f toks sec_end (it, b) = Inr (it', b') \<Longrightarrow> same_objective b b'"
proof (induction "length toks - it" arbitrary: it b rule: less_induct)
  case less
  show ?case
  proof (cases "it = sec_end \<or> \<not> in_range toks sec_end it \<or> \<not> is_VARID (toks ! it)")
    case True
    with less.prems have "b' = b"
      by (subst (asm) typesec_loop.simps) (auto split: if_splits)
    then show ?thesis by (simp add: same_objective_refl)
  next
    case False
    then have lt: "it < length toks" by (simp add: in_range_def)
    obtain var b1 where g: "getvarbyname b (tok_name (toks ! it)) = (var, b1)"
      by (cases "getvarbyname b (tok_name (toks ! it))")
    have "typesec_loop f toks sec_end (it + 1, setvar b1 (tok_name (toks ! it)) (f var))
        = Inr (it', b')"
      using less.prems False g by (subst (asm) typesec_loop.simps) (simp add: Let_def)
    then have "same_objective (setvar b1 (tok_name (toks ! it)) (f var)) b'"
      using less.hyps [of "it + 1"] lt by simp
    moreover have "same_objective b (setvar b1 (tok_name (toks ! it)) (f var))"
      using g by (rule getvar_setvar_frame)
    ultimately show ?thesis by (blast intro: same_objective_trans)
  qed
qed

lemma sosentries_frame:
  "sosentries toks sec_end (it, entries, b) = Inr (it', entries', b') \<Longrightarrow> same_objective b b'"
proof (induction "length toks - it" arbitrary: it entries b rule: less_induct)
  case less
  show ?case
  proof (cases "it \<noteq> sec_end \<and> in_range toks sec_end it \<and> is_CONID (toks ! it)
                 \<and> it + 1 \<noteq> sec_end \<and> is_CONST (toks ! (it + 1))")
    case True
    obtain var b1 where g: "getvarbyname b (tok_name (toks ! it)) = (var, b1)"
      by (cases "getvarbyname b (tok_name (toks ! it))")
    from True have lt: "it < length toks" by (simp add: in_range_def)
    have "sosentries toks sec_end
            (it + 2, entries @ [(tok_name (toks ! it), tok_value (toks ! (it + 1)))], b1)
          = Inr (it', entries', b')"
      using less.prems True g by (subst (asm) sosentries.simps) (simp add: Let_def)
    then have "same_objective b1 b'"
      using less.hyps [of "it + 2"] lt by simp
    moreover have "same_objective b b1" using g by (rule getvarbyname_frame)
    ultimately show ?thesis by (blast intro: same_objective_trans)
  next
    case False
    with less.prems have "b' = b"
      by (subst (asm) sosentries.simps) (auto simp: Let_def split: if_splits)
    then show ?thesis by (simp add: same_objective_refl)
  qed
qed

lemma processsos_frame:
  "processsos toks sec_end it b = Inr (it', b') \<Longrightarrow> same_objective b b'"
  unfolding processsos_def Let_def
  by (auto split: sum.splits if_splits dest!: sosentries_frame simp: same_objective_def)

lemma sossec_loop_frame:
  "sossec_loop toks sec_end (it, b) = Inr (it', b') \<Longrightarrow> same_objective b b'"
proof (induction "length toks - it" arbitrary: it b rule: less_induct)
  case less
  show ?case
  proof (cases "it = sec_end \<or> \<not> in_range toks sec_end it")
    case True
    with less.prems have "b' = b"
      by (subst (asm) sossec_loop.simps) (auto split: if_splits)
    then show ?thesis by (simp add: same_objective_refl)
  next
    case False
    then have lt: "it < length toks" by (simp add: in_range_def)
    from False less.prems have r:
      "(case processsos toks sec_end it b of Inl e \<Rightarrow> Inl e | Inr s \<Rightarrow> sossec_loop toks sec_end s)
         = Inr (it', b')"
      by (subst (asm) sossec_loop.simps) simp
    then obtain s where s: "processsos toks sec_end it b = Inr s"
        and l: "sossec_loop toks sec_end s = Inr (it', b')"
      by (auto split: sum.splits)
    obtain j b1 where jb: "s = (j, b1)" by (cases s)
    have "same_objective b b1" "it < j"
      using s jb by (auto dest: processsos_frame processsos_gt)
    moreover have "same_objective b1 b'"
      using less.hyps [of j b1] l jb lt \<open>it < j\<close> by simp
    ultimately show ?thesis by (blast intro: same_objective_trans)
  qed
qed

lemma with_section_frame:
  assumes "\<And>toks sec_end it b it' b'.
      loop toks sec_end (it, b) = Inr (it', b') \<Longrightarrow> same_objective b b'"
    and "with_section k loop r = Inr r'"
  shows "same_objective (builder r) (builder r')"
  using assms(2) unfolding with_section_def
  by (auto split: sum.splits dest!: assms(1))

lemma processconsec_frame:
  "processconsec fadd r = Inr r' \<Longrightarrow> same_objective (builder r) (builder r')"
  unfolding processconsec_def
  by (auto split: if_splits intro: same_objective_refl
        elim: with_section_frame [rotated] consec_loop_frame)

lemma processboundssec_frame:
  "processboundssec r = Inr r' \<Longrightarrow> same_objective (builder r) (builder r')"
  unfolding processboundssec_def
  by (auto split: if_splits intro: same_objective_refl
        elim: with_section_frame [rotated] boundssec_loop_frame)

lemma processgensec_frame:
  "processgensec r = Inr r' \<Longrightarrow> same_objective (builder r) (builder r')"
  unfolding processgensec_def
  by (auto split: if_splits intro: same_objective_refl
        elim: with_section_frame [rotated] typesec_loop_frame)

lemma processbinsec_frame:
  "processbinsec r = Inr r' \<Longrightarrow> same_objective (builder r) (builder r')"
  unfolding processbinsec_def
  by (auto split: if_splits intro: same_objective_refl
        elim: with_section_frame [rotated] typesec_loop_frame)

lemma processsemisec_frame:
  "processsemisec r = Inr r' \<Longrightarrow> same_objective (builder r) (builder r')"
  unfolding processsemisec_def
  by (auto split: if_splits intro: same_objective_refl
        elim: with_section_frame [rotated] typesec_loop_frame)

lemma processsossec_frame:
  "processsossec r = Inr r' \<Longrightarrow> same_objective (builder r) (builder r')"
  unfolding processsossec_def
  by (auto split: if_splits intro: same_objective_refl
        elim: with_section_frame [rotated] sossec_loop_frame)

lemma processendsec_frame:
  "processendsec r = Inr r' \<Longrightarrow> r' = r"
  by (auto simp: processendsec_def split: if_splits)

lemma processnonesec_frame:
  "processnonesec r = Inr r' \<Longrightarrow> r' = r"
  by (auto simp: processnonesec_def split: if_splits)

lemma and_then_Inr:
  "and_then x f = Inr y \<Longrightarrow> \<exists>a. x = Inr a \<and> f a = Inr y"
  by (cases x) (simp_all add: and_then_def)

text \<open>
  After the objective processor the other processors run; when they all succeed, the
  model that is returned has the objective and the sense the objective processor left.
\<close>

lemma processsections_frame:
  assumes "processsections fadd r = Inr r'"
  shows "\<exists>r1. processobjsec fadd r = Inr r1 \<and> same_objective (builder r1) (builder r')"
proof -
  from assms obtain r0 r1 r2 r3 r4 r5 r6 r7 where
      n: "processnonesec r = Inr r0" and o: "processobjsec fadd r0 = Inr r1"
      and c: "processconsec fadd r1 = Inr r2" and b: "processboundssec r2 = Inr r3"
      and g: "processgensec r3 = Inr r4" and bi: "processbinsec r4 = Inr r5"
      and se: "processsemisec r5 = Inr r6" and so: "processsossec r6 = Inr r7"
      and e: "processendsec r7 = Inr r'"
    unfolding processsections_def by (blast dest!: and_then_Inr)
  have "r0 = r" using n by (rule processnonesec_frame)
  moreover have "r' = r7" using e by (rule processendsec_frame)
  moreover have "same_objective (builder r1) (builder r7)"
    using processconsec_frame [OF c] processboundssec_frame [OF b] processgensec_frame [OF g]
      processbinsec_frame [OF bi] processsemisec_frame [OF se] processsossec_frame [OF so]
    by (blast intro: same_objective_trans)
  ultimately show ?thesis using o by blast
qed

section \<open>Properties of the section processors\<close>

lemma with_section_Inl:
  "loop (processedtokens r) (snd (entry (sectiontokens r) k))
        (fst (entry (sectiontokens r) k), builder r) = Inl e \<Longrightarrow>
   with_section k loop r = Inl e"
  by (simp add: with_section_def)

lemma with_section_Inr:
  "loop (processedtokens r) (snd (entry (sectiontokens r) k))
        (fst (entry (sectiontokens r) k), builder r) = Inr (it, b) \<Longrightarrow>
   with_section k loop r
     = Inr (r\<lparr>sectiontokens := set_first (sectiontokens r) k it, builder := b\<rparr>)"
  by (simp add: with_section_def)

lemma entry_Some: "m k = Some p \<Longrightarrow> entry m k = p"
  by (simp add: entry_def)

subsection \<open>The free marker in the bounds section\<close>

lemma is_VARID_excl: "is_VARID t \<Longrightarrow> \<not> is_FREE t \<and> \<not> is_CONST t"
  by (cases t) simp_all

lemma is_FREE_excl: "is_FREE t \<Longrightarrow> \<not> is_COMP t"
  by (cases t) simp_all

lemma processbound_var_free:
  assumes "is_VARID (toks ! begin)" "is_FREE (toks ! (begin + 1))"
  shows "processbound toks sec_end begin b = Inl MalformedBound"
proof -
  from assms(1) have v: "\<not> is_FREE (toks ! begin)" "\<not> is_CONST (toks ! begin)"
    by (simp_all add: is_VARID_excl)
  from assms(2) have f: "\<not> is_COMP (toks ! (begin + 1))"
    by (rule is_FREE_excl)
  show ?thesis
    unfolding processbound_def Let_def using v f by simp
qed

text \<open>
  C1.  The claim does not hold of the code: a bounds section that starts with a
  variable followed by the free marker is rejected.  The first pattern of
  \<^verbatim>\<open>processboundssec\<close> compares the token at \<open>begin\<close> with both \<^verbatim>\<open>VARID\<close> and \<^verbatim>\<open>FREE\<close>,
  because \<open>next1\<close> is moved on only after it, so the entry falls through to the final
  \<^verbatim>\<open>lpassert(false)\<close>.
\<close>

theorem processboundssec_var_free_fails:
  assumes "sectiontokens r BOUNDS = Some (begin, sec_end)"
    and "begin < sec_end" and "sec_end \<le> length (processedtokens r)"
    and "is_VARID (processedtokens r ! begin)"
    and "is_FREE (processedtokens r ! (begin + 1))"
  shows "processboundssec r = Inl MalformedBound"
proof -
  have "boundssec_loop (processedtokens r) sec_end (begin, builder r) = Inl MalformedBound"
    using assms(2,3) processbound_var_free [OF assms(4,5)]
    by (subst boundssec_loop.simps) (simp add: in_range_def)
  then show ?thesis
    using assms(1) by (simp add: processboundssec_def with_section_Inl entry_Some)
qed

lemma splittokens_bounds_free:
  "splittokens [SECID BOUNDS, VARID ''x'', FREE, SECID END] = Inr [BOUNDS \<mapsto> (1, 3)]"
  by (simp add: splittokens_def splitloop.simps set_first_def set_second_def entry_def
        eval_nat_numeral)

theorem processboundssec_var_free_fails_witness:
  "splittokens [SECID BOUNDS, VARID ''x'', FREE, SECID END] = Inr [BOUNDS \<mapsto> (1, 3)]
   \<and> processboundssec
     \<lparr>processedtokens = [SECID BOUNDS, VARID ''x'', FREE, SECID END],
      sectiontokens = [BOUNDS \<mapsto> (1, 3)],
      builder = new_Builder SenseMIN\<rparr> = Inl MalformedBound"
  using processboundssec_var_free_fails
    [of "\<lparr>processedtokens = [SECID BOUNDS, VARID ''x'', FREE, SECID END],
          sectiontokens = [BOUNDS \<mapsto> (1, 3)], builder = new_Builder SenseMIN\<rparr>" 1 3]
    splittokens_bounds_free
  by (simp add: eval_nat_numeral)

subsection \<open>A file without an objective section\<close>

lemma no_objective_entries:
  assumes "splittokens toks = Inr m"
    and "\<forall>i. i < length toks \<longrightarrow> toks ! i \<noteq> SECID OBJMIN \<and> toks ! i \<noteq> SECID OBJMAX"
  shows "m OBJMIN = None \<and> m OBJMAX = None"
proof -
  have d: "dom m = occ toks 0 (length toks)"
    using assms(1) by (rule splittokens_dom)
  have "OBJMIN \<notin> dom m" "OBJMAX \<notin> dom m"
    using assms(2) unfolding d by (auto simp: occ_def)
  then show ?thesis by auto
qed

lemma processobjsec_no_entries:
  "sectiontokens r OBJMIN = None \<Longrightarrow> sectiontokens r OBJMAX = None \<Longrightarrow>
   processobjsec fadd r
     = Inr (r\<lparr>builder := (builder r)\<lparr>model := (model (builder r))
               \<lparr>objective := \<lparr>linterms = [], quadterms = [], offset = DVal 0,
                               expr_name = []\<rparr>\<rparr>\<rparr>\<rparr>)"
  by (simp add: processobjsec_def Let_def new_Expression_def)

text \<open>
  C10.  When the token stream has no minimize and no maximize keyword, the section map
  the splitter returns has no entry for them, and the objective processor succeeds: it
  sets the objective to a new empty expression (no linear terms, no quadratic terms,
  offset zero, empty name) and changes nothing else.  The processors that run after it
  leave the objective and the sense alone, so whenever the read returns a model, its
  objective is that empty expression and its sense is the initial one.
\<close>

theorem read_without_objective:
  assumes "splittokens toks = Inr m"
    and "\<forall>i. i < length toks \<longrightarrow> toks ! i \<noteq> SECID OBJMIN \<and> toks ! i \<noteq> SECID OBJMAX"
  shows "processobjsec fadd \<lparr>processedtokens = toks, sectiontokens = m, builder = b\<rparr>
       = Inr \<lparr>processedtokens = toks, sectiontokens = m,
              builder = b\<lparr>model := (model b)
                \<lparr>objective := \<lparr>linterms = [], quadterms = [], offset = DVal 0,
                                expr_name = []\<rparr>\<rparr>\<rparr>\<rparr>
     \<and> (\<forall>r'. processsections fadd \<lparr>processedtokens = toks, sectiontokens = m, builder = b\<rparr>
              = Inr r'
            \<longrightarrow> objective (model (builder r'))
                  = \<lparr>linterms = [], quadterms = [], offset = DVal 0, expr_name = []\<rparr>
                \<and> sense (model (builder r')) = sense (model b))
     \<and> (\<forall>mdl. read_tokens fadd sns toks = Inr mdl
            \<longrightarrow> objective mdl = \<lparr>linterms = [], quadterms = [], offset = DVal 0, expr_name = []\<rparr>
                \<and> sense mdl = sns)"
proof -
  let ?empty = "\<lparr>linterms = [], quadterms = [], offset = DVal 0, expr_name = []\<rparr>"
  have none: "m OBJMIN = None \<and> m OBJMAX = None"
    using assms by (rule no_objective_entries)
  have obj: "\<And>b. processobjsec fadd \<lparr>processedtokens = toks, sectiontokens = m, builder = b\<rparr>
       = Inr \<lparr>processedtokens = toks, sectiontokens = m,
              builder = b\<lparr>model := (model b)\<lparr>objective := ?empty\<rparr>\<rparr>\<rparr>"
    using none by (simp add: processobjsec_no_entries)
  have sec: "\<And>b r'. processsections fadd \<lparr>processedtokens = toks, sectiontokens = m, builder = b\<rparr>
              = Inr r'
       \<Longrightarrow> objective (model (builder r')) = ?empty \<and> sense (model (builder r')) = sense (model b)"
  proof -
    fix b r'
    assume "processsections fadd \<lparr>processedtokens = toks, sectiontokens = m, builder = b\<rparr>
              = Inr r'"
    then obtain r1 where
        "processobjsec fadd \<lparr>processedtokens = toks, sectiontokens = m, builder = b\<rparr> = Inr r1"
        and same: "same_objective (builder r1) (builder r')"
      using processsections_frame by blast
    then have "r1 = \<lparr>processedtokens = toks, sectiontokens = m,
              builder = b\<lparr>model := (model b)\<lparr>objective := ?empty\<rparr>\<rparr>\<rparr>"
      using obj [of b] by simp
    with same show "objective (model (builder r')) = ?empty
        \<and> sense (model (builder r')) = sense (model b)"
      by (simp add: same_objective_def)
  qed
  have rd: "\<And>mdl. read_tokens fadd sns toks = Inr mdl
       \<Longrightarrow> objective mdl = ?empty \<and> sense mdl = sns"
  proof -
    fix mdl
    assume "read_tokens fadd sns toks = Inr mdl"
    then obtain r' where
        "processsections fadd
           \<lparr>processedtokens = toks, sectiontokens = m, builder = new_Builder sns\<rparr> = Inr r'"
        and "mdl = model (builder r')"
      using assms(1) by (auto simp: read_tokens_def and_then_def split: sum.splits)
    then show "objective mdl = ?empty \<and> sense mdl = sns"
      using sec [of "new_Builder sns" r'] by (simp add: new_Builder_def)
  qed
  show ?thesis
    using obj [of b] sec [of b] rd by blast
qed


lemma splittokens_bounds_only:
  "splittokens [SECID BOUNDS, VARID ''x'', COMP LEQ, CONSTVAL (DVal 4), SECID END]
     = Inr [BOUNDS \<mapsto> (1, 4)]"
  by (simp add: splittokens_def splitloop.simps set_first_def set_second_def entry_def
        eval_nat_numeral)

lemma read_tokens_bounds_only:
  "read_tokens fadd SenseMAX
     [SECID BOUNDS, VARID ''x'', COMP LEQ, CONSTVAL (DVal 4), SECID END]
   = Inr \<lparr>objective = \<lparr>linterms = [], quadterms = [], offset = DVal 0, expr_name = []\<rparr>,
          sense = SenseMAX, constraints = [], variables = [''x''], soss = []\<rparr>"
  by (simp add: read_tokens_def and_then_def splittokens_bounds_only processsections_def
        processnonesec_def processobjsec_def processconsec_def processboundssec_def
        processgensec_def processbinsec_def processsemisec_def processsossec_def
        processendsec_def with_section_def entry_def set_first_def
        boundssec_loop.simps processbound_def in_range_def getvarbyname_def setvar_def
        new_Builder_def new_Expression_def new_Variable_def Let_def)

theorem read_without_objective_witness:
  "\<forall>fadd. read_tokens fadd SenseMAX
       [SECID BOUNDS, VARID ''x'', COMP LEQ, CONSTVAL (DVal 4), SECID END]
     = Inr \<lparr>objective = \<lparr>linterms = [], quadterms = [], offset = DVal 0, expr_name = []\<rparr>,
            sense = SenseMAX, constraints = [], variables = [''x''], soss = []\<rparr>
   \<and> objective \<lparr>objective = \<lparr>linterms = [], quadterms = [], offset = DVal 0, expr_name = []\<rparr>,
            sense = SenseMAX, constraints = [], variables = [''x''], soss = []\<rparr>
       = \<lparr>linterms = [], quadterms = [], offset = DVal 0, expr_name = []\<rparr>"
proof (intro allI)
  fix fadd :: addition
  let ?toks = "[SECID BOUNDS, VARID ''x'', COMP LEQ, CONSTVAL (DVal 4), SECID END]"
  have "\<forall>i. i < length ?toks \<longrightarrow> ?toks ! i \<noteq> SECID OBJMIN \<and> ?toks ! i \<noteq> SECID OBJMAX"
    by (simp add: nth_Cons')
  from read_without_objective [OF splittokens_bounds_only this, of fadd _ SenseMAX]
    read_tokens_bounds_only [of fadd]
  show "read_tokens fadd SenseMAX ?toks
     = Inr \<lparr>objective = \<lparr>linterms = [], quadterms = [], offset = DVal 0, expr_name = []\<rparr>,
            sense = SenseMAX, constraints = [], variables = [''x''], soss = []\<rparr>
   \<and> objective \<lparr>objective = \<lparr>linterms = [], quadterms = [], offset = DVal 0, expr_name = []\<rparr>,
            sense = SenseMAX, constraints = [], variables = [''x''], soss = []\<rparr>
       = \<lparr>linterms = [], quadterms = [], offset = DVal 0, expr_name = []\<rparr>"
    by blast
qed

subsection \<open>The semicontinuous section\<close>

text \<open>
  The kind a lookup of the name finds: a variable that is not registered yet is created
  continuous by the lookup.
\<close>

definition var_kind :: "Builder \<Rightarrow> string \<Rightarrow> VariableType" where
  "var_kind b n = (case b_variables b n of None \<Rightarrow> CONTINUOUS | Some v \<Rightarrow> var_type v)"

text \<open>
  The rule of the specification for a variable listed in the semicontinuous section:
  semi-integer if it was already general-integer, else semicontinuous.
\<close>

definition semi_kind :: "VariableType \<Rightarrow> VariableType" where
  "semi_kind k = (if k = GENERAL then SEMIINTEGER else SEMICONTINUOUS)"

text \<open>The names a section lists, in the order of the file.\<close>

definition section_names :: "ProcessedToken list \<Rightarrow> nat \<Rightarrow> nat \<Rightarrow> string list" where
  "section_names toks begin sec_end = map tok_name (take (sec_end - begin) (drop begin toks))"

text \<open>One pass of the loop body: look the variable up and assign to it.\<close>

definition update_var :: "(Variable \<Rightarrow> Variable) \<Rightarrow> string \<Rightarrow> Builder \<Rightarrow> Builder" where
  "update_var f n b = (let (var, b1) = getvarbyname b n in setvar b1 n (f var))"

lemma section_names_step:
  assumes "begin < sec_end" "sec_end \<le> length toks"
  shows "section_names toks begin sec_end
       = tok_name (toks ! begin) # section_names toks (begin + 1) sec_end"
proof -
  have "drop begin toks = toks ! begin # drop (Suc begin) toks"
    using assms by (simp add: Cons_nth_drop_Suc)
  moreover have "sec_end - begin = Suc (sec_end - (begin + 1))"
    using assms by simp
  ultimately show ?thesis
    by (simp add: section_names_def)
qed

lemma typesec_loop_fold:
  assumes "it \<le> sec_end" "sec_end \<le> length toks"
    and "\<forall>p. it \<le> p \<and> p < sec_end \<longrightarrow> is_VARID (toks ! p)"
  shows "typesec_loop f toks sec_end (it, b)
       = Inr (sec_end, fold (update_var f) (section_names toks it sec_end) b)"
  using assms
proof (induction "sec_end - it" arbitrary: it b)
  case 0
  then have "it = sec_end" by simp
  then show ?case
    by (subst typesec_loop.simps) (simp add: section_names_def)
next
  case (Suc d)
  then have lt: "it < sec_end" and d: "d = sec_end - (it + 1)" by simp_all
  have v: "is_VARID (toks ! it)" using Suc.prems(3) lt by simp
  have step: "typesec_loop f toks sec_end (it, b)
      = typesec_loop f toks sec_end (it + 1, update_var f (tok_name (toks ! it)) b)"
    using lt Suc.prems(2) v
    by (subst typesec_loop.simps)
       (simp add: in_range_def update_var_def Let_def split: prod.splits)
  have "typesec_loop f toks sec_end (it + 1, update_var f (tok_name (toks ! it)) b)
      = Inr (sec_end, fold (update_var f) (section_names toks (it + 1) sec_end)
               (update_var f (tok_name (toks ! it)) b))"
    using Suc.hyps(1) [OF d] lt Suc.prems(2,3) by simp
  then show ?case
    unfolding step using section_names_step [OF lt Suc.prems(2)] by simp
qed

lemma var_kind_update_semi:
  "var_kind (update_var set_semi n b) m
     = (if m = n then semi_kind (var_kind b m) else var_kind b m)"
  by (cases "b_variables b n")
     (simp_all add: update_var_def getvarbyname_def setvar_def var_kind_def set_semi_def
        semi_kind_def new_Variable_def)

lemma var_kind_fold_semi:
  "var_kind (fold (update_var set_semi) ns b) m
     = fold (\<lambda>n k. if m = n then semi_kind k else k) ns (var_kind b m)"
  by (induction ns arbitrary: b) (simp_all add: var_kind_update_semi)

lemma fold_kind_unlisted:
  "m \<notin> set ns \<Longrightarrow> fold (\<lambda>n k. if m = n then f k else k) ns k0 = k0"
  by (induction ns arbitrary: k0) auto

lemma fold_kind_once:
  "distinct ns \<Longrightarrow> m \<in> set ns \<Longrightarrow> fold (\<lambda>n k. if m = n then f k else k) ns k0 = f k0"
  by (induction ns arbitrary: k0) (auto simp: fold_kind_unlisted)

text \<open>
  C2.  Without an entry for the integer section the semicontinuous section is not
  processed: the reader is returned as it is.  With such an entry, a semicontinuous
  section that lists variables is processed: every listing of a variable turns its kind
  into semi-integer if it is general-integer at that moment and into semicontinuous
  otherwise.  So a variable listed once ends semi-integer if it was general-integer
  before the section and semicontinuous otherwise, and a variable that is not listed
  keeps its kind.
\<close>

theorem processsemisec_kinds:
  "(sectiontokens r GEN = None \<longrightarrow> processsemisec r = Inr r)
   \<and> (sectiontokens r GEN \<noteq> None \<and> sectiontokens r SEMI = Some (begin, sec_end)
        \<and> begin \<le> sec_end \<and> sec_end \<le> length (processedtokens r)
        \<and> (\<forall>p. begin \<le> p \<and> p < sec_end \<longrightarrow> is_VARID (processedtokens r ! p))
      \<longrightarrow> (\<exists>r'. processsemisec r = Inr r'
            \<and> (\<forall>n. var_kind (builder r') n
                   = fold (\<lambda>m k. if n = m then semi_kind k else k)
                       (section_names (processedtokens r) begin sec_end)
                       (var_kind (builder r) n))
            \<and> (\<forall>n. n \<notin> set (section_names (processedtokens r) begin sec_end)
                   \<longrightarrow> var_kind (builder r') n = var_kind (builder r) n)
            \<and> (distinct (section_names (processedtokens r) begin sec_end)
                 \<longrightarrow> (\<forall>n. n \<in> set (section_names (processedtokens r) begin sec_end)
                        \<longrightarrow> var_kind (builder r') n = semi_kind (var_kind (builder r) n)))))"
proof (intro conjI impI)
  assume "sectiontokens r GEN = None"
  then show "processsemisec r = Inr r"
    by (simp add: processsemisec_def)
next
  let ?ns = "section_names (processedtokens r) begin sec_end"
  assume a: "sectiontokens r GEN \<noteq> None \<and> sectiontokens r SEMI = Some (begin, sec_end)
        \<and> begin \<le> sec_end \<and> sec_end \<le> length (processedtokens r)
        \<and> (\<forall>p. begin \<le> p \<and> p < sec_end \<longrightarrow> is_VARID (processedtokens r ! p))"
  define b' where "b' = fold (update_var set_semi) ?ns (builder r)"
  define r' where "r' = r\<lparr>sectiontokens := set_first (sectiontokens r) SEMI sec_end,
                          builder := b'\<rparr>"
  have loop: "typesec_loop set_semi (processedtokens r) sec_end (begin, builder r)
      = Inr (sec_end, b')"
    unfolding b'_def using a by (intro typesec_loop_fold) simp_all
  have res: "processsemisec r = Inr r'"
    using a loop by (simp add: processsemisec_def with_section_def entry_Some r'_def)
  have kind: "\<And>n. var_kind (builder r') n
      = fold (\<lambda>m k. if n = m then semi_kind k else k) ?ns (var_kind (builder r) n)"
    by (simp add: r'_def b'_def var_kind_fold_semi)
  show "\<exists>r'. processsemisec r = Inr r'
            \<and> (\<forall>n. var_kind (builder r') n
                   = fold (\<lambda>m k. if n = m then semi_kind k else k) ?ns (var_kind (builder r) n))
            \<and> (\<forall>n. n \<notin> set ?ns \<longrightarrow> var_kind (builder r') n = var_kind (builder r) n)
            \<and> (distinct ?ns
                 \<longrightarrow> (\<forall>n. n \<in> set ?ns
                        \<longrightarrow> var_kind (builder r') n = semi_kind (var_kind (builder r) n)))"
  proof (intro exI [of _ r'] conjI allI impI)
    show "processsemisec r = Inr r'" by (rule res)
  next
    fix n
    show "var_kind (builder r') n
        = fold (\<lambda>m k. if n = m then semi_kind k else k) ?ns (var_kind (builder r) n)"
      by (rule kind)
  next
    fix n assume "n \<notin> set ?ns"
    then show "var_kind (builder r') n = var_kind (builder r) n"
      unfolding kind by (rule fold_kind_unlisted)
  next
    fix n assume "distinct ?ns" "n \<in> set ?ns"
    then show "var_kind (builder r') n = semi_kind (var_kind (builder r) n)"
      unfolding kind by (rule fold_kind_once)
  qed
qed


theorem processsemisec_kinds_witness:
  "processsemisec
     \<lparr>processedtokens = [SECID SEMI, VARID ''x'', VARID ''y''],
      sectiontokens = [SEMI \<mapsto> (1, 3)], builder = new_Builder SenseMIN\<rparr>
   = Inr \<lparr>processedtokens = [SECID SEMI, VARID ''x'', VARID ''y''],
          sectiontokens = [SEMI \<mapsto> (1, 3)], builder = new_Builder SenseMIN\<rparr>
   \<and> (\<exists>r0 r'. processgensec
          \<lparr>processedtokens = [SECID GEN, VARID ''x'', SECID SEMI, VARID ''x'', VARID ''y''],
           sectiontokens = [GEN \<mapsto> (1, 2), SEMI \<mapsto> (3, 5)],
           builder = new_Builder SenseMIN\<rparr> = Inr r0
        \<and> var_kind (builder r0) ''x'' = GENERAL
        \<and> processsemisec r0 = Inr r'
        \<and> var_kind (builder r') ''x'' = SEMIINTEGER
        \<and> var_kind (builder r') ''y'' = SEMICONTINUOUS
        \<and> var_kind (builder r') ''z'' = CONTINUOUS)"
proof
  let ?rsemi = "\<lparr>processedtokens = [SECID SEMI, VARID ''x'', VARID ''y''],
              sectiontokens = [SEMI \<mapsto> (1, 3)], builder = new_Builder SenseMIN\<rparr>"
  show "processsemisec ?rsemi = Inr ?rsemi"
    using processsemisec_kinds [of ?rsemi] by simp
next
  let ?toks = "[SECID GEN, VARID ''x'', SECID SEMI, VARID ''x'', VARID ''y'']"
  let ?rin = "\<lparr>processedtokens = ?toks, sectiontokens = [GEN \<mapsto> (1, 2), SEMI \<mapsto> (3, 5)],
             builder = new_Builder SenseMIN\<rparr>"
  let ?b = "setvar (snd (getvarbyname (new_Builder SenseMIN) ''x'')) ''x''
              (set_general (fst (getvarbyname (new_Builder SenseMIN) ''x'')))"
  let ?rgen = "\<lparr>processedtokens = ?toks,
              sectiontokens = set_first [GEN \<mapsto> (1, 2), SEMI \<mapsto> (3, 5)] GEN 2,
              builder = ?b\<rparr>"
  have loop: "typesec_loop set_general ?toks 2 (1, new_Builder SenseMIN) = Inr (2, ?b)"
    by (simp add: typesec_loop.simps in_range_def Let_def case_prod_beta)
  have gen: "processgensec ?rin = Inr ?rgen"
    using loop by (simp add: processgensec_def with_section_def entry_def)
  have kx: "var_kind ?b ''x'' = GENERAL"
    by (simp add: var_kind_def setvar_def getvarbyname_def new_Builder_def new_Variable_def
          set_general_def)
  have ky: "var_kind ?b ''y'' = CONTINUOUS"
    by (simp add: var_kind_def setvar_def getvarbyname_def new_Builder_def)
  have kz: "var_kind ?b ''z'' = CONTINUOUS"
    by (simp add: var_kind_def setvar_def getvarbyname_def new_Builder_def)
  have ns: "section_names ?toks 3 5 = [''x'', ''y'']"
    by (simp add: section_names_def eval_nat_numeral)
  have vars: "\<forall>p. 3 \<le> p \<and> p < 5 \<longrightarrow> is_VARID (?toks ! p)"
  proof (intro allI impI)
    fix p :: nat assume "3 \<le> p \<and> p < 5"
    then have "p = 3 \<or> p = 4" by arith
    then show "is_VARID (?toks ! p)" by (auto simp: eval_nat_numeral)
  qed
  have pre: "sectiontokens ?rgen GEN \<noteq> None \<and> sectiontokens ?rgen SEMI = Some (3, 5)
        \<and> (3::nat) \<le> 5 \<and> 5 \<le> length (processedtokens ?rgen)
        \<and> (\<forall>p. 3 \<le> p \<and> p < 5 \<longrightarrow> is_VARID (processedtokens ?rgen ! p))"
    using vars by (simp add: set_first_def entry_def)
  from processsemisec_kinds [of ?rgen 3 5] pre
  obtain r' where r: "processsemisec ?rgen = Inr r'"
    and unl: "\<forall>n. n \<notin> set (section_names (processedtokens ?rgen) 3 5)
                 \<longrightarrow> var_kind (builder r') n = var_kind (builder ?rgen) n"
    and once: "distinct (section_names (processedtokens ?rgen) 3 5)
                 \<longrightarrow> (\<forall>n. n \<in> set (section_names (processedtokens ?rgen) 3 5)
                        \<longrightarrow> var_kind (builder r') n = semi_kind (var_kind (builder ?rgen) n))"
    by blast
  have x: "var_kind (builder r') ''x'' = SEMIINTEGER"
    using once ns kx by (simp add: semi_kind_def)
  have y: "var_kind (builder r') ''y'' = SEMICONTINUOUS"
    using once ns ky by (simp add: semi_kind_def)
  have z: "var_kind (builder r') ''z'' = CONTINUOUS"
    using unl ns kz by simp
  have "var_kind (builder ?rgen) ''x'' = GENERAL" using kx by simp
  with gen r x y z
  show "\<exists>r0 r'. processgensec ?rin = Inr r0
        \<and> var_kind (builder r0) ''x'' = GENERAL
        \<and> processsemisec r0 = Inr r'
        \<and> var_kind (builder r') ''x'' = SEMIINTEGER
        \<and> var_kind (builder r') ''y'' = SEMICONTINUOUS
        \<and> var_kind (builder r') ''z'' = CONTINUOUS"
    by blast
qed

subsection \<open>Single steps of the expression parser\<close>

lemma parseloop_end: "parseloop fadd toks sec_end isobj (sec_end, expr, b) = Inr (sec_end, expr, b)"
  by (subst parseloop.simps) simp

lemma parseloop_step:
  "it \<noteq> sec_end \<Longrightarrow> in_range toks sec_end it \<Longrightarrow>
   parseterm fadd toks sec_end isobj it expr b = Inr (Some s) \<Longrightarrow>
   parseloop fadd toks sec_end isobj (it, expr, b) = parseloop fadd toks sec_end isobj s"
  by (subst parseloop.simps) simp

lemma parseloop_stop:
  "it \<noteq> sec_end \<Longrightarrow> in_range toks sec_end it \<Longrightarrow>
   parseterm fadd toks sec_end isobj it expr b = Inr None \<Longrightarrow>
   parseloop fadd toks sec_end isobj (it, expr, b) = Inr (it, expr, b)"
  by (subst parseloop.simps) simp

lemma parseloop_fail:
  "it \<noteq> sec_end \<Longrightarrow> in_range toks sec_end it \<Longrightarrow>
   parseterm fadd toks sec_end isobj it expr b = Inl e \<Longrightarrow>
   parseloop fadd toks sec_end isobj (it, expr, b) = Inl e"
  by (subst parseloop.simps) simp

lemma parseterm_constvar:
  "it + 1 \<noteq> sec_end \<Longrightarrow> toks ! it = CONSTVAL c \<Longrightarrow> toks ! (it + 1) = VARID x \<Longrightarrow>
   parseterm fadd toks sec_end isobj it expr b
     = Inr (Some (it + 2, expr\<lparr>linterms := linterms expr @ [\<lparr>lin_coef = c, lin_var = x\<rparr>]\<rparr>,
                  snd (getvarbyname b x)))"
  by (simp add: parseterm_def Let_def split: prod.splits)

lemma parseterm_none:
  "\<not> is_CONST (toks ! it) \<Longrightarrow> \<not> is_VARID (toks ! it) \<Longrightarrow> \<not> is_BRKOP (toks ! it) \<Longrightarrow>
   parseterm fadd toks sec_end isobj it expr b = Inr None"
  by (simp add: parseterm_def Let_def)

lemma consec_loop_end: "consec_loop fadd toks sec_end (sec_end, b) = Inr (sec_end, b)"
  by (subst consec_loop.simps) simp

lemma consec_loop_step:
  "it \<noteq> sec_end \<Longrightarrow> in_range toks sec_end it \<Longrightarrow>
   processcon fadd toks sec_end it b = Inr s \<Longrightarrow>
   consec_loop fadd toks sec_end (it, b) = consec_loop fadd toks sec_end s"
  by (subst consec_loop.simps) simp

lemma consec_loop_fail:
  "it \<noteq> sec_end \<Longrightarrow> in_range toks sec_end it \<Longrightarrow>
   processcon fadd toks sec_end it b = Inl e \<Longrightarrow>
   consec_loop fadd toks sec_end (it, b) = Inl e"
  by (subst consec_loop.simps) simp

lemma nth_of_take_drop:
  assumes "take n (drop i xs) = ys" "k < length ys"
  shows "xs ! (i + k) = ys ! k"
proof -
  from assms have k: "k < n" "i + k < length xs" by auto
  have "ys ! k = take n (drop i xs) ! k" using assms(1) by simp
  also have "\<dots> = drop i xs ! k" using k by simp
  also have "\<dots> = xs ! (i + k)" using k by simp
  finally show ?thesis by simp
qed

subsection \<open>A constraint with two linear terms\<close>

lemma parseexpression_two_terms:
  assumes t: "toks ! it = CONSTVAL c1" "toks ! (it + 1) = VARID x1"
      "toks ! (it + 2) = CONSTVAL c2" "toks ! (it + 3) = VARID x2"
      "toks ! (it + 4) = COMP d"
    and r: "it + 4 < sec_end" "sec_end \<le> length toks"
  shows "parseexpression fadd toks it sec_end expr isobj b
       = Inr (it + 4,
              expr\<lparr>linterms := linterms expr
                 @ [\<lparr>lin_coef = c1, lin_var = x1\<rparr>, \<lparr>lin_coef = c2, lin_var = x2\<rparr>]\<rparr>,
              snd (getvarbyname (snd (getvarbyname b x1)) x2))"
proof -
  define e1 where "e1 = expr\<lparr>linterms := linterms expr @ [\<lparr>lin_coef = c1, lin_var = x1\<rparr>]\<rparr>"
  define b1 where "b1 = snd (getvarbyname b x1)"
  define e2 where "e2 = e1\<lparr>linterms := linterms e1 @ [\<lparr>lin_coef = c2, lin_var = x2\<rparr>]\<rparr>"
  define b2 where "b2 = snd (getvarbyname b1 x2)"
  have a: "it + 2 + 1 = it + 3" "it + 2 + 2 = it + 4" by simp_all
  have p1: "parseterm fadd toks sec_end isobj it expr b = Inr (Some (it + 2, e1, b1))"
    unfolding e1_def b1_def using r by (intro parseterm_constvar t) simp
  have s1: "parseloop fadd toks sec_end isobj (it, expr, b)
          = parseloop fadd toks sec_end isobj (it + 2, e1, b1)"
    using r by (intro parseloop_step p1) (simp_all add: in_range_def)
  have p2: "parseterm fadd toks sec_end isobj (it + 2) e1 b1 = Inr (Some (it + 2 + 2, e2, b2))"
    unfolding e2_def b2_def using r t(3,4)
    by (intro parseterm_constvar) (simp_all add: eval_nat_numeral)
  have s2: "parseloop fadd toks sec_end isobj (it + 2, e1, b1)
          = parseloop fadd toks sec_end isobj (it + 4, e2, b2)"
    using r parseloop_step [OF _ _ p2] by (simp add: in_range_def eval_nat_numeral)
  have p3: "parseterm fadd toks sec_end isobj (it + 4) e2 b2 = Inr None"
    using t(5) by (intro parseterm_none) simp_all
  have s3: "parseloop fadd toks sec_end isobj (it + 4, e2, b2) = Inr (it + 4, e2, b2)"
    using r by (intro parseloop_stop p3) (simp_all add: in_range_def)
  have "parseexpression fadd toks it sec_end expr isobj b
      = parseloop fadd toks sec_end isobj (it, expr, b)"
    using r t(1) by (simp add: parseexpression_def in_range_def)
  also have "\<dots> = Inr (it + 4, e2, b2)"
    unfolding s1 s2 s3 ..
  finally show ?thesis
    by (simp add: e2_def e1_def b2_def b1_def)
qed


lemma getvarbyname_constraints:
  "constraints (model (snd (getvarbyname b n))) = constraints (model b)"
  by (cases "b_variables b n") (simp_all add: getvarbyname_def)

lemma processcon_two_terms_leq:
  assumes t: "toks ! it = CONSTVAL c1" "toks ! (it + 1) = VARID x1"
      "toks ! (it + 2) = CONSTVAL c2" "toks ! (it + 3) = VARID x2"
      "toks ! (it + 4) = COMP LEQ" "toks ! (it + 5) = CONSTVAL k"
    and r: "it + 6 \<le> sec_end" "sec_end \<le> length toks"
  shows "processcon fadd toks sec_end it b
       = Inr (it + 6,
              (snd (getvarbyname (snd (getvarbyname b x1)) x2))
                \<lparr>model := (model (snd (getvarbyname (snd (getvarbyname b x1)) x2)))
                   \<lparr>constraints := constraints (model b)
                      @ [\<lparr>con_lowerbound = NegInf, con_upperbound = k,
                          con_expr = \<lparr>linterms = [\<lparr>lin_coef = c1, lin_var = x1\<rparr>,
                                                  \<lparr>lin_coef = c2, lin_var = x2\<rparr>],
                                      quadterms = [], offset = DVal 0, expr_name = []\<rparr>\<rparr>]\<rparr>\<rparr>)"
proof -
  have pe: "parseexpression fadd toks it sec_end (con_expr new_Constraint) False b
       = Inr (it + 4,
              (con_expr new_Constraint)\<lparr>linterms := linterms (con_expr new_Constraint)
                 @ [\<lparr>lin_coef = c1, lin_var = x1\<rparr>, \<lparr>lin_coef = c2, lin_var = x2\<rparr>]\<rparr>,
              snd (getvarbyname (snd (getvarbyname b x1)) x2))"
    using r by (intro parseexpression_two_terms [where d = LEQ] t) simp_all
  have a: "it + 4 + 1 = it + 5" "it + 5 + 1 = it + 6" by simp_all
  have t': "toks ! (5 + it) = CONSTVAL k" using t(6) by (simp add: add.commute)
  show ?thesis
    unfolding processcon_def Let_def pe
    using r t(5) t'
    by (simp add: a new_Constraint_def new_Expression_def getvarbyname_constraints)
qed

text \<open>
  C6.  A constraint section that consists of a constant and a variable, a second constant
  and variable, the comparison \<open>\<le>\<close> and a constant \<open>k\<close> is processed without error and
  appends exactly one constraint: its expression has the two linear terms in the order
  of the file and nothing else, its upper bound is \<open>k\<close> and its lower bound is the
  \<open>-\<infinity>\<close> a new constraint starts with.
\<close>

theorem processconsec_two_terms_leq:
  assumes "sectiontokens r CON = Some (begin, begin + 6)"
    and "begin + 6 \<le> length (processedtokens r)"
    and "take 6 (drop begin (processedtokens r))
           = [CONSTVAL c1, VARID x1, CONSTVAL c2, VARID x2, COMP LEQ, CONSTVAL k]"
  shows "\<exists>r'. processconsec fadd r = Inr r'
     \<and> constraints (model (builder r'))
         = constraints (model (builder r))
           @ [\<lparr>con_lowerbound = NegInf, con_upperbound = k,
               con_expr = \<lparr>linterms = [\<lparr>lin_coef = c1, lin_var = x1\<rparr>,
                                       \<lparr>lin_coef = c2, lin_var = x2\<rparr>],
                           quadterms = [], offset = DVal 0, expr_name = []\<rparr>\<rparr>]"
proof -
  let ?toks = "processedtokens r"
  let ?ts = "[CONSTVAL c1, VARID x1, CONSTVAL c2, VARID x2, COMP LEQ, CONSTVAL k]"
  note nth = nth_of_take_drop [OF assms(3)]
  have t: "?toks ! begin = CONSTVAL c1" "?toks ! (begin + 1) = VARID x1"
      "?toks ! (begin + 2) = CONSTVAL c2" "?toks ! (begin + 3) = VARID x2"
      "?toks ! (begin + 4) = COMP LEQ" "?toks ! (begin + 5) = CONSTVAL k"
    using nth [of 0] nth [of 1] nth [of 2] nth [of 3] nth [of 4] nth [of 5] by simp_all
  define b' where "b' = (snd (getvarbyname (snd (getvarbyname (builder r) x1)) x2))
                \<lparr>model := (model (snd (getvarbyname (snd (getvarbyname (builder r) x1)) x2)))
                   \<lparr>constraints := constraints (model (builder r))
                      @ [\<lparr>con_lowerbound = NegInf, con_upperbound = k,
                          con_expr = \<lparr>linterms = [\<lparr>lin_coef = c1, lin_var = x1\<rparr>,
                                                  \<lparr>lin_coef = c2, lin_var = x2\<rparr>],
                                      quadterms = [], offset = DVal 0, expr_name = []\<rparr>\<rparr>]\<rparr>\<rparr>"
  have pc: "processcon fadd ?toks (begin + 6) begin (builder r) = Inr (begin + 6, b')"
    unfolding b'_def using assms(2) by (intro processcon_two_terms_leq t) simp_all
  have "consec_loop fadd ?toks (begin + 6) (begin, builder r)
      = consec_loop fadd ?toks (begin + 6) (begin + 6, b')"
    using assms(2) by (intro consec_loop_step pc) (simp_all add: in_range_def)
  then have loop: "consec_loop fadd ?toks (begin + 6) (begin, builder r) = Inr (begin + 6, b')"
    by (simp add: consec_loop_end)
  have "processconsec fadd r
      = Inr (r\<lparr>sectiontokens := set_first (sectiontokens r) CON (begin + 6), builder := b'\<rparr>)"
    using assms(1) loop by (simp add: processconsec_def with_section_def entry_Some)
  then show ?thesis
    by (simp add: b'_def)
qed

theorem processconsec_two_terms_leq_witness:
  "\<forall>fadd. \<exists>r'. processconsec fadd
       \<lparr>processedtokens = [SECID CON, CONSTVAL (DVal 2), VARID ''x'', CONSTVAL (DVal 3),
                           VARID ''y'', COMP LEQ, CONSTVAL (DVal 10)],
        sectiontokens = [CON \<mapsto> (1, 7)], builder = new_Builder SenseMIN\<rparr> = Inr r'
     \<and> constraints (model (builder r'))
         = [\<lparr>con_lowerbound = NegInf, con_upperbound = DVal 10,
             con_expr = \<lparr>linterms = [\<lparr>lin_coef = DVal 2, lin_var = ''x''\<rparr>,
                                     \<lparr>lin_coef = DVal 3, lin_var = ''y''\<rparr>],
                         quadterms = [], offset = DVal 0, expr_name = []\<rparr>\<rparr>]"
proof
  fix fadd :: addition
  let ?r = "\<lparr>processedtokens = [SECID CON, CONSTVAL (DVal 2), VARID ''x'', CONSTVAL (DVal 3),
                           VARID ''y'', COMP LEQ, CONSTVAL (DVal 10)],
        sectiontokens = [CON \<mapsto> (1, 7)], builder = new_Builder SenseMIN\<rparr>"
  show "\<exists>r'. processconsec fadd ?r = Inr r'
     \<and> constraints (model (builder r'))
         = [\<lparr>con_lowerbound = NegInf, con_upperbound = DVal 10,
             con_expr = \<lparr>linterms = [\<lparr>lin_coef = DVal 2, lin_var = ''x''\<rparr>,
                                     \<lparr>lin_coef = DVal 3, lin_var = ''y''\<rparr>],
                         quadterms = [], offset = DVal 0, expr_name = []\<rparr>\<rparr>]"
    using processconsec_two_terms_leq
      [of ?r 1 "DVal 2" "''x''" "DVal 3" "''y''" "DVal 10" fadd]
    by (simp add: new_Builder_def)
qed

subsection \<open>Bounds given at once and one by one\<close>

text \<open>
  The bounds a lookup of the name finds: a variable that is not registered yet is
  created with the bounds \<open>[0, +\<infinity>)\<close> by the lookup.
\<close>

definition var_bounds :: "Builder \<Rightarrow> string \<Rightarrow> double \<times> double" where
  "var_bounds b n =
     (case b_variables b n of
        None \<Rightarrow> (DVal 0, PosInf)
      | Some v \<Rightarrow> (var_lowerbound v, var_upperbound v))"

lemma boundssec_loop_end: "boundssec_loop toks sec_end (sec_end, b) = Inr (sec_end, b)"
  by (subst boundssec_loop.simps) simp

lemma boundssec_loop_step:
  "it \<noteq> sec_end \<Longrightarrow> in_range toks sec_end it \<Longrightarrow>
   processbound toks sec_end it b = Inr s \<Longrightarrow>
   boundssec_loop toks sec_end (it, b) = boundssec_loop toks sec_end s"
  by (subst boundssec_loop.simps) simp

lemma processbound_range:
  assumes "toks ! it = CONSTVAL lo" "toks ! (it + 1) = COMP LEQ" "toks ! (it + 2) = VARID x"
      "toks ! (it + 3) = COMP LEQ" "toks ! (it + 4) = CONSTVAL hi"
    and "it + 5 \<le> sec_end"
  shows "processbound toks sec_end it b
       = Inr (it + 5,
              setvar (snd (getvarbyname b x)) x
                ((fst (getvarbyname b x))\<lparr>var_lowerbound := lo, var_upperbound := hi\<rparr>))"
  using assms
  by (simp add: processbound_def Let_def eval_nat_numeral split: prod.splits)

lemma processbound_var_comp_const:
  assumes "toks ! it = VARID x" "toks ! (it + 1) = COMP d" "toks ! (it + 2) = CONSTVAL v"
    and "it + 3 \<le> sec_end" and "d = LEQ \<or> d = GEQ"
  shows "processbound toks sec_end it b
       = Inr (it + 3,
              setvar (snd (getvarbyname b x)) x
                (if d = LEQ then (fst (getvarbyname b x))\<lparr>var_upperbound := v\<rparr>
                 else (fst (getvarbyname b x))\<lparr>var_lowerbound := v\<rparr>))"
  using assms
  by (auto simp: processbound_def Let_def eval_nat_numeral split: prod.splits)


lemma getvarbyname_setvar: "getvarbyname (setvar b n v) n = (v, setvar b n v)"
  by (simp add: getvarbyname_def setvar_def)

lemma setvar_setvar: "setvar (setvar b n v) n w = setvar b n w"
  by (simp add: setvar_def)

lemma var_bounds_setvar: "var_bounds (setvar b n v) n = (var_lowerbound v, var_upperbound v)"
  by (simp add: var_bounds_def setvar_def)

lemma boundssec_range:
  assumes "take 5 (drop i toks) = [CONSTVAL lo, COMP LEQ, VARID x, COMP LEQ, CONSTVAL hi]"
    and "i + 5 \<le> length toks"
  shows "boundssec_loop toks (i + 5) (i, b)
       = Inr (i + 5, setvar (snd (getvarbyname b x)) x
                ((fst (getvarbyname b x))\<lparr>var_lowerbound := lo, var_upperbound := hi\<rparr>))"
proof -
  note nth = nth_of_take_drop [OF assms(1)]
  have t: "toks ! i = CONSTVAL lo" "toks ! (i + 1) = COMP LEQ" "toks ! (i + 2) = VARID x"
      "toks ! (i + 3) = COMP LEQ" "toks ! (i + 4) = CONSTVAL hi"
    using nth [of 0] nth [of 1] nth [of 2] nth [of 3] nth [of 4] by simp_all
  have pb: "processbound toks (i + 5) i b
       = Inr (i + 5, setvar (snd (getvarbyname b x)) x
                ((fst (getvarbyname b x))\<lparr>var_lowerbound := lo, var_upperbound := hi\<rparr>))"
    by (intro processbound_range t) simp
  have "boundssec_loop toks (i + 5) (i, b)
      = boundssec_loop toks (i + 5)
          (i + 5, setvar (snd (getvarbyname b x)) x
                ((fst (getvarbyname b x))\<lparr>var_lowerbound := lo, var_upperbound := hi\<rparr>))"
    using assms(2) by (intro boundssec_loop_step pb) (simp_all add: in_range_def)
  then show ?thesis by (simp add: boundssec_loop_end)
qed

lemma boundssec_two_entries:
  assumes "take 6 (drop j toks)
             = [VARID x, COMP GEQ, CONSTVAL lo, VARID x, COMP LEQ, CONSTVAL hi]"
    and "j + 6 \<le> length toks"
  shows "boundssec_loop toks (j + 6) (j, b)
       = Inr (j + 6, setvar (snd (getvarbyname b x)) x
                ((fst (getvarbyname b x))\<lparr>var_lowerbound := lo, var_upperbound := hi\<rparr>))"
proof -
  note nth = nth_of_take_drop [OF assms(1)]
  have t: "toks ! j = VARID x" "toks ! (j + 1) = COMP GEQ" "toks ! (j + 2) = CONSTVAL lo"
      "toks ! (j + 3) = VARID x" "toks ! (j + 3 + 1) = COMP LEQ"
      "toks ! (j + 3 + 2) = CONSTVAL hi"
    using nth [of 0] nth [of 1] nth [of 2] nth [of 3] nth [of 4] nth [of 5]
    by (simp_all add: eval_nat_numeral)
  define b1 where "b1 = setvar (snd (getvarbyname b x)) x
                          ((fst (getvarbyname b x))\<lparr>var_lowerbound := lo\<rparr>)"
  define b2 where "b2 = setvar (snd (getvarbyname b x)) x
                ((fst (getvarbyname b x))\<lparr>var_lowerbound := lo, var_upperbound := hi\<rparr>)"
  have p1: "processbound toks (j + 6) j b = Inr (j + 3, b1)"
    unfolding b1_def
    using processbound_var_comp_const [of toks j x GEQ lo "j + 6" b] t by simp
  have p2: "processbound toks (j + 6) (j + 3) b1 = Inr (j + 3 + 3, b2)"
    unfolding b1_def b2_def
    using processbound_var_comp_const [of toks "j + 3" x LEQ hi "j + 6"
        "setvar (snd (getvarbyname b x)) x ((fst (getvarbyname b x))\<lparr>var_lowerbound := lo\<rparr>)"] t
    by (simp add: getvarbyname_setvar setvar_setvar)
  have "boundssec_loop toks (j + 6) (j, b) = boundssec_loop toks (j + 6) (j + 3, b1)"
    using assms(2) by (intro boundssec_loop_step p1) (simp_all add: in_range_def)
  also have "\<dots> = boundssec_loop toks (j + 6) (j + 3 + 3, b2)"
    using assms(2) by (intro boundssec_loop_step p2) (simp_all add: in_range_def)
  also have "\<dots> = Inr (j + 6, b2)"
    using boundssec_loop_end [of toks "j + 6" b2] by (simp add: add.commute)
  finally show ?thesis by (simp add: b2_def)
qed

text \<open>
  C7.  A bounds section with the single entry \<open>lo \<le> x \<le> hi\<close> and a bounds section with
  the two entries \<open>x \<ge> lo\<close> and \<open>x \<le> hi\<close> are both processed without error and give \<open>x\<close>
  the lower bound \<open>lo\<close> and the upper bound \<open>hi\<close>; started on the same builder they end
  with the same builder.  The claim is the case \<open>lo = 3\<close>, \<open>hi = 7\<close>.
\<close>

theorem bounds_range_same_as_two_entries:
  assumes "sectiontokens r1 BOUNDS = Some (i, i + 5)"
    and "i + 5 \<le> length (processedtokens r1)"
    and "take 5 (drop i (processedtokens r1))
           = [CONSTVAL lo, COMP LEQ, VARID x, COMP LEQ, CONSTVAL hi]"
    and "sectiontokens r2 BOUNDS = Some (j, j + 6)"
    and "j + 6 \<le> length (processedtokens r2)"
    and "take 6 (drop j (processedtokens r2))
           = [VARID x, COMP GEQ, CONSTVAL lo, VARID x, COMP LEQ, CONSTVAL hi]"
  shows "\<exists>r1' r2'. processboundssec r1 = Inr r1' \<and> processboundssec r2 = Inr r2'
     \<and> var_bounds (builder r1') x = (lo, hi)
     \<and> var_bounds (builder r2') x = (lo, hi)
     \<and> (builder r1 = builder r2 \<longrightarrow> builder r1' = builder r2')"
proof -
  define upd where "upd = (\<lambda>b. setvar (snd (getvarbyname b x)) x
                ((fst (getvarbyname b x))\<lparr>var_lowerbound := lo, var_upperbound := hi\<rparr>))"
  have l1: "boundssec_loop (processedtokens r1) (i + 5) (i, builder r1)
      = Inr (i + 5, upd (builder r1))"
    unfolding upd_def using assms(3,2) by (rule boundssec_range)
  have l2: "boundssec_loop (processedtokens r2) (j + 6) (j, builder r2)
      = Inr (j + 6, upd (builder r2))"
    unfolding upd_def using assms(6,5) by (rule boundssec_two_entries)
  have p1: "processboundssec r1
      = Inr (r1\<lparr>sectiontokens := set_first (sectiontokens r1) BOUNDS (i + 5),
                builder := upd (builder r1)\<rparr>)"
    using assms(1) l1 by (simp add: processboundssec_def with_section_def entry_Some)
  have p2: "processboundssec r2
      = Inr (r2\<lparr>sectiontokens := set_first (sectiontokens r2) BOUNDS (j + 6),
                builder := upd (builder r2)\<rparr>)"
    using assms(4) l2 by (simp add: processboundssec_def with_section_def entry_Some)
  have vb: "\<And>b. var_bounds (upd b) x = (lo, hi)"
    by (simp add: upd_def var_bounds_setvar)
  show ?thesis
    unfolding p1 p2 by (simp add: vb)
qed

theorem bounds_range_same_as_two_entries_witness:
  "\<exists>r1' r2'.
     processboundssec
       \<lparr>processedtokens = [SECID BOUNDS, CONSTVAL (DVal 3), COMP LEQ, VARID ''x'', COMP LEQ,
                           CONSTVAL (DVal 7)],
        sectiontokens = [BOUNDS \<mapsto> (1, 6)], builder = new_Builder SenseMIN\<rparr> = Inr r1'
   \<and> processboundssec
       \<lparr>processedtokens = [SECID BOUNDS, VARID ''x'', COMP GEQ, CONSTVAL (DVal 3),
                           VARID ''x'', COMP LEQ, CONSTVAL (DVal 7)],
        sectiontokens = [BOUNDS \<mapsto> (1, 7)], builder = new_Builder SenseMIN\<rparr> = Inr r2'
   \<and> var_bounds (builder r1') ''x'' = (DVal 3, DVal 7)
   \<and> var_bounds (builder r2') ''x'' = (DVal 3, DVal 7)
   \<and> builder r1' = builder r2'"
  using bounds_range_same_as_two_entries
    [of "\<lparr>processedtokens = [SECID BOUNDS, CONSTVAL (DVal 3), COMP LEQ, VARID ''x'', COMP LEQ,
                           CONSTVAL (DVal 7)],
        sectiontokens = [BOUNDS \<mapsto> (1, 6)], builder = new_Builder SenseMIN\<rparr>"
       1 "DVal 3" "''x''" "DVal 7"
       "\<lparr>processedtokens = [SECID BOUNDS, VARID ''x'', COMP GEQ, CONSTVAL (DVal 3),
                           VARID ''x'', COMP LEQ, CONSTVAL (DVal 7)],
        sectiontokens = [BOUNDS \<mapsto> (1, 7)], builder = new_Builder SenseMIN\<rparr>" 1]
  by simp

subsection \<open>The end of a bracketed quadratic group\<close>

lemma closegroup_obj_iff:
  "closegroup toks sec_end True j = Inr it' \<longleftrightarrow>
     j + 1 \<noteq> sec_end \<and> j + 2 \<noteq> sec_end \<and> j + 2 < length toks
     \<and> is_BRKCL (toks ! j) \<and> is_SLASH (toks ! (j + 1))
     \<and> toks ! (j + 2) = CONSTVAL (DVal 2) \<and> it' = j + 3"
  by (cases "toks ! (j + 2)") (auto simp: closegroup_def Let_def)

lemma closegroup_con_iff:
  "closegroup toks sec_end False j = Inr it' \<longleftrightarrow>
     j \<noteq> sec_end \<and> j < length toks \<and> is_BRKCL (toks ! j) \<and> it' = j + 1"
  by (auto simp: closegroup_def)

lemma is_BRKOP_excl: "is_BRKOP t \<Longrightarrow> \<not> is_CONST t \<and> \<not> is_VARID t"
  by (cases t) simp_all

lemma parseterm_group:
  assumes "is_BRKOP (toks ! it)"
  shows "parseterm fadd toks sec_end isobj it expr b =
     (if it + 1 \<noteq> sec_end then
        (case parsequad toks sec_end (it + 1, expr, b) of
           Inl e \<Rightarrow> Inl e
         | Inr (it1, expr1, b1) \<Rightarrow>
             (case closegroup toks sec_end isobj it1 of
                Inl e \<Rightarrow> Inl e
              | Inr it2 \<Rightarrow> Inr (Some (it2, expr1, b1))))
      else Inr None)"
  using is_BRKOP_excl [OF assms] assms by (simp add: parseterm_def Let_def)

lemma parseterm_group_closed:
  assumes "is_BRKOP (toks ! it)"
    and "parseterm fadd toks sec_end isobj it expr b = Inr (Some (it', expr', b'))"
  shows "\<exists>j. it < j \<and> parsequad toks sec_end (it + 1, expr, b) = Inr (j, expr', b')
           \<and> closegroup toks sec_end isobj j = Inr it'"
proof -
  from assms obtain j where
      q: "parsequad toks sec_end (it + 1, expr, b) = Inr (j, expr', b')"
      and c: "closegroup toks sec_end isobj j = Inr it'"
    by (auto simp: parseterm_group split: if_splits sum.splits)
  have "it + 1 \<le> j" using q by (rule parsequad_ge)
  with q c show ?thesis by auto
qed


lemma parseterm_group_obj_iff:
  assumes "is_BRKOP (toks ! it)" "it + 1 \<noteq> sec_end"
  shows "parseterm fadd toks sec_end True it expr b = Inr (Some (it', expr', b')) \<longleftrightarrow>
     (\<exists>j. parsequad toks sec_end (it + 1, expr, b) = Inr (j, expr', b')
        \<and> j + 1 \<noteq> sec_end \<and> j + 2 \<noteq> sec_end \<and> j + 2 < length toks
        \<and> is_BRKCL (toks ! j) \<and> is_SLASH (toks ! (j + 1))
        \<and> toks ! (j + 2) = CONSTVAL (DVal 2) \<and> it' = j + 3)"
  unfolding parseterm_group [OF assms(1)] closegroup_obj_iff [symmetric]
  using assms(2) by (auto split: sum.splits)

lemma parseterm_group_con_iff:
  assumes "is_BRKOP (toks ! it)" "it + 1 \<noteq> sec_end"
  shows "parseterm fadd toks sec_end False it expr b = Inr (Some (it', expr', b')) \<longleftrightarrow>
     (\<exists>j. parsequad toks sec_end (it + 1, expr, b) = Inr (j, expr', b')
        \<and> j \<noteq> sec_end \<and> j < length toks \<and> is_BRKCL (toks ! j) \<and> it' = j + 1)"
  unfolding parseterm_group [OF assms(1)] closegroup_con_iff [symmetric]
  using assms(2) by (auto split: sum.splits)

lemma closegroup_obj_fail:
  assumes "j < sec_end" "sec_end \<le> length toks"
    and "\<not> (j + 2 < sec_end \<and> is_BRKCL (toks ! j) \<and> is_SLASH (toks ! (j + 1))
            \<and> toks ! (j + 2) = CONSTVAL (DVal 2))"
  shows "closegroup toks sec_end True j = Inl MalformedExpression"
proof (cases "j + 1 = sec_end \<or> j + 2 = sec_end")
  case True
  then show ?thesis by (auto simp: closegroup_def Let_def)
next
  case False
  with assms(1,2) have "j + 2 < sec_end" "j < length toks" "j + 1 < length toks"
     "j + 2 < length toks" by simp_all
  with assms(3) False show ?thesis
    by (cases "toks ! (j + 2)") (auto simp: closegroup_def Let_def)
qed

lemma parseterm_group_obj_fail:
  assumes "is_BRKOP (toks ! it)" "it + 1 \<noteq> sec_end"
    and "parsequad toks sec_end (it + 1, expr, b) = Inr (j, expr1, b1)"
    and "j < sec_end" "sec_end \<le> length toks"
    and "\<not> (j + 2 < sec_end \<and> is_BRKCL (toks ! j) \<and> is_SLASH (toks ! (j + 1))
            \<and> toks ! (j + 2) = CONSTVAL (DVal 2))"
  shows "parseterm fadd toks sec_end True it expr b = Inl MalformedExpression"
  unfolding parseterm_group [OF assms(1)]
  using assms(2,3) closegroup_obj_fail [OF assms(4,5,6)] by simp

subsection \<open>The group \<open>[ x ^ 2 ]\<close>\<close>

lemma parsequad_end: "parsequad toks sec_end (sec_end, expr, b) = Inr (sec_end, expr, b)"
  by (subst parsequad.simps) simp

lemma parsequad_brkcl:
  "in_range toks sec_end it \<Longrightarrow> is_BRKCL (toks ! it) \<Longrightarrow>
   parsequad toks sec_end (it, expr, b) = Inr (it, expr, b)"
  by (subst parsequad.simps) simp

lemma parsequad_step:
  "it \<noteq> sec_end \<Longrightarrow> in_range toks sec_end it \<Longrightarrow> \<not> is_BRKCL (toks ! it) \<Longrightarrow>
   parsequadterm toks sec_end it expr b = Inr (Some s) \<Longrightarrow>
   parsequad toks sec_end (it, expr, b) = parsequad toks sec_end s"
  by (subst parsequad.simps) simp

lemma getvarbyname_twice: "getvarbyname (snd (getvarbyname b n)) n
    = (fst (getvarbyname b n), snd (getvarbyname b n))"
  by (cases "b_variables b n") (simp_all add: getvarbyname_def)

lemma parsequadterm_square:
  assumes "toks ! it = VARID x" "toks ! (it + 1) = HAT" "toks ! (it + 2) = CONSTVAL (DVal 2)"
    and "it + 1 \<noteq> sec_end" "it + 2 \<noteq> sec_end"
  shows "parsequadterm toks sec_end it expr b
       = Inr (Some (it + 3,
                    expr\<lparr>quadterms := quadterms expr
                       @ [\<lparr>quad_coef = DVal 1, quad_var1 = x, quad_var2 = x\<rparr>]\<rparr>,
                    snd (getvarbyname b x)))"
  using assms
  by (simp add: parsequadterm_def Let_def eval_nat_numeral getvarbyname_twice
        case_prod_beta)

lemma parsequad_square:
  assumes t: "toks ! q = VARID x" "toks ! (q + 1) = HAT"
      "toks ! (q + 2) = CONSTVAL (DVal 2)" "toks ! (q + 3) = BRKCL"
    and r: "q + 3 < sec_end" "sec_end \<le> length toks"
  shows "parsequad toks sec_end (q, expr, b)
       = Inr (q + 3,
              expr\<lparr>quadterms := quadterms expr
                 @ [\<lparr>quad_coef = DVal 1, quad_var1 = x, quad_var2 = x\<rparr>]\<rparr>,
              snd (getvarbyname b x))"
proof -
  define e1 where "e1 = expr\<lparr>quadterms := quadterms expr
                        @ [\<lparr>quad_coef = DVal 1, quad_var1 = x, quad_var2 = x\<rparr>]\<rparr>"
  define b1 where "b1 = snd (getvarbyname b x)"
  have q1: "parsequadterm toks sec_end q expr b = Inr (Some (q + 3, e1, b1))"
    unfolding e1_def b1_def using t r
    by (intro parsequadterm_square) simp_all
  have "parsequad toks sec_end (q, expr, b) = parsequad toks sec_end (q + 3, e1, b1)"
    using r t(1) by (intro parsequad_step q1) (simp_all add: in_range_def)
  also have "\<dots> = Inr (q + 3, e1, b1)"
    using r t(4) by (intro parsequad_brkcl) (simp_all add: in_range_def)
  finally show ?thesis by (simp add: e1_def b1_def)
qed

lemma parseterm_square_group:
  assumes t: "toks ! it = BRKOP" "toks ! (it + 1) = VARID x" "toks ! (it + 2) = HAT"
      "toks ! (it + 3) = CONSTVAL (DVal 2)" "toks ! (it + 4) = BRKCL"
    and r: "it + 4 < sec_end" "sec_end \<le> length toks"
  shows "parseterm fadd toks sec_end isobj it expr b =
     (case closegroup toks sec_end isobj (it + 4) of
        Inl e \<Rightarrow> Inl e
      | Inr it2 \<Rightarrow>
          Inr (Some (it2,
                     expr\<lparr>quadterms := quadterms expr
                        @ [\<lparr>quad_coef = DVal 1, quad_var1 = x, quad_var2 = x\<rparr>]\<rparr>,
                     snd (getvarbyname b x))))"
proof -
  define e1 where "e1 = expr\<lparr>quadterms := quadterms expr
                        @ [\<lparr>quad_coef = DVal 1, quad_var1 = x, quad_var2 = x\<rparr>]\<rparr>"
  define b1 where "b1 = snd (getvarbyname b x)"
  have q1: "parsequadterm toks sec_end (it + 1) expr b = Inr (Some (it + 1 + 3, e1, b1))"
    unfolding e1_def b1_def using t r
    by (intro parsequadterm_square) (simp_all add: eval_nat_numeral)
  have "parsequad toks sec_end (it + 1, expr, b) = parsequad toks sec_end (it + 1 + 3, e1, b1)"
    using r t(2) by (intro parsequad_step q1) (simp_all add: in_range_def)
  also have "\<dots> = Inr (it + 4, e1, b1)"
    using r t(5) parsequad_brkcl [of toks sec_end "it + 4" e1 b1]
    by (simp add: in_range_def add.commute)
  finally have q: "parsequad toks sec_end (it + 1, expr, b) = Inr (it + 4, e1, b1)" .
  have "is_BRKOP (toks ! it)" using t(1) by simp
  from parseterm_group [OF this] show ?thesis
    using r q by (simp add: e1_def b1_def)
qed


lemma parseterm_none_slash:
  "toks ! it = SLASH \<Longrightarrow> parseterm fadd toks sec_end isobj it expr b = Inr None"
  by (intro parseterm_none) simp_all

lemma parseexpression_square_obj:
  assumes "take 7 (drop p toks)
             = [BRKOP, VARID x, HAT, CONSTVAL (DVal 2), BRKCL, SLASH, CONSTVAL (DVal 2)]"
    and "p + 7 \<le> length toks"
  shows "parseexpression fadd toks p (p + 7) expr True b
       = Inr (p + 7,
              expr\<lparr>quadterms := quadterms expr
                 @ [\<lparr>quad_coef = DVal 1, quad_var1 = x, quad_var2 = x\<rparr>]\<rparr>,
              snd (getvarbyname b x))"
proof -
  note nth = nth_of_take_drop [OF assms(1)]
  have t: "toks ! p = BRKOP" "toks ! (p + 1) = VARID x" "toks ! (p + 2) = HAT"
      "toks ! (p + 3) = CONSTVAL (DVal 2)" "toks ! (p + 4) = BRKCL"
      "toks ! (p + 4 + 1) = SLASH" "toks ! (p + 4 + 2) = CONSTVAL (DVal 2)"
    using nth [of 0] nth [of 1] nth [of 2] nth [of 3] nth [of 4] nth [of 5] nth [of 6]
    by (simp_all add: eval_nat_numeral)
  define e1 where "e1 = expr\<lparr>quadterms := quadterms expr
                        @ [\<lparr>quad_coef = DVal 1, quad_var1 = x, quad_var2 = x\<rparr>]\<rparr>"
  define b1 where "b1 = snd (getvarbyname b x)"
  have cg: "closegroup toks (p + 7) True (p + 4) = Inr (p + 4 + 3)"
    unfolding closegroup_obj_iff using t(5,6,7) assms(2) by simp
  have pt: "parseterm fadd toks (p + 7) True p expr b = Inr (Some (p + 7, e1, b1))"
    using assms(2) parseterm_square_group [of toks p x "p + 7" fadd True expr b, OF t(1-5)] cg
    by (simp add: e1_def b1_def)
  have "parseloop fadd toks (p + 7) True (p, expr, b)
      = parseloop fadd toks (p + 7) True (p + 7, e1, b1)"
    using assms(2) by (intro parseloop_step pt) (simp_all add: in_range_def)
  then have "parseloop fadd toks (p + 7) True (p, expr, b) = Inr (p + 7, e1, b1)"
    by (simp add: parseloop_end)
  then show ?thesis
    using assms(2) t(1) by (simp add: parseexpression_def in_range_def e1_def b1_def)
qed

lemma parseexpression_square_con:
  assumes t: "toks ! p = BRKOP" "toks ! (p + 1) = VARID x" "toks ! (p + 2) = HAT"
      "toks ! (p + 3) = CONSTVAL (DVal 2)" "toks ! (p + 4) = BRKCL"
    and n: "\<not> is_CONST (toks ! (p + 5))" "\<not> is_VARID (toks ! (p + 5))"
      "\<not> is_BRKOP (toks ! (p + 5))"
    and r: "p + 5 < sec_end" "sec_end \<le> length toks"
  shows "parseexpression fadd toks p sec_end expr False b
       = Inr (p + 5,
              expr\<lparr>quadterms := quadterms expr
                 @ [\<lparr>quad_coef = DVal 1, quad_var1 = x, quad_var2 = x\<rparr>]\<rparr>,
              snd (getvarbyname b x))"
proof -
  define e1 where "e1 = expr\<lparr>quadterms := quadterms expr
                        @ [\<lparr>quad_coef = DVal 1, quad_var1 = x, quad_var2 = x\<rparr>]\<rparr>"
  define b1 where "b1 = snd (getvarbyname b x)"
  have cg: "closegroup toks sec_end False (p + 4) = Inr (p + 4 + 1)"
    unfolding closegroup_con_iff using t(5) r by simp
  have pt: "parseterm fadd toks sec_end False p expr b = Inr (Some (p + 5, e1, b1))"
    using r parseterm_square_group [of toks p x sec_end fadd False expr b, OF t(1-5)] cg
    by (simp add: e1_def b1_def)
  have p2: "parseterm fadd toks sec_end False (p + 5) e1 b1 = Inr None"
    using n by (rule parseterm_none)
  have "parseloop fadd toks sec_end False (p, expr, b)
      = parseloop fadd toks sec_end False (p + 5, e1, b1)"
    using r by (intro parseloop_step pt) (simp_all add: in_range_def)
  also have "\<dots> = Inr (p + 5, e1, b1)"
    using r by (intro parseloop_stop p2) (simp_all add: in_range_def)
  finally show ?thesis
    using r t(1) by (simp add: parseexpression_def in_range_def e1_def b1_def)
qed

lemma processobjsec_square:
  assumes "kw = OBJMIN \<or> (kw = OBJMAX \<and> sectiontokens r OBJMIN = None)"
    and "sectiontokens r kw = Some (p, p + 7)"
    and "p + 7 \<le> length (processedtokens r)"
    and "take 7 (drop p (processedtokens r))
           = [BRKOP, VARID x, HAT, CONSTVAL (DVal 2), BRKCL, SLASH, CONSTVAL (DVal 2)]"
  shows "\<exists>r'. processobjsec fadd r = Inr r'
     \<and> objective (model (builder r'))
         = \<lparr>linterms = [],
            quadterms = [\<lparr>quad_coef = DVal 1, quad_var1 = x, quad_var2 = x\<rparr>],
            offset = DVal 0, expr_name = []\<rparr>"
proof -
  have pe: "\<And>b0. parseexpression fadd (processedtokens r) p (p + 7) new_Expression True b0
       = Inr (p + 7,
              new_Expression\<lparr>quadterms := quadterms new_Expression
                 @ [\<lparr>quad_coef = DVal 1, quad_var1 = x, quad_var2 = x\<rparr>]\<rparr>,
              snd (getvarbyname b0 x))"
    using assms(4,3) by (rule parseexpression_square_obj)
  from assms(1) show ?thesis
  proof
    assume "kw = OBJMIN"
    then show ?thesis
      using assms(2) pe
      by (simp add: processobjsec_def objsec_def Let_def entry_Some new_Expression_def)
  next
    assume "kw = OBJMAX \<and> sectiontokens r OBJMIN = None"
    then show ?thesis
      using assms(2) pe
      by (simp add: processobjsec_def objsec_def Let_def entry_Some new_Expression_def)
  qed
qed

lemma processconsec_square_leq:
  assumes "sectiontokens r CON = Some (p, p + 7)"
    and "p + 7 \<le> length (processedtokens r)"
    and "take 7 (drop p (processedtokens r))
           = [BRKOP, VARID x, HAT, CONSTVAL (DVal 2), BRKCL, COMP LEQ, CONSTVAL k]"
  shows "\<exists>r'. processconsec fadd r = Inr r'
     \<and> constraints (model (builder r'))
         = constraints (model (builder r))
           @ [\<lparr>con_lowerbound = NegInf, con_upperbound = k,
               con_expr = \<lparr>linterms = [],
                  quadterms = [\<lparr>quad_coef = DVal 1, quad_var1 = x, quad_var2 = x\<rparr>],
                  offset = DVal 0, expr_name = []\<rparr>\<rparr>]"
proof -
  let ?toks = "processedtokens r"
  note nth = nth_of_take_drop [OF assms(3)]
  have t: "?toks ! p = BRKOP" "?toks ! (p + 1) = VARID x" "?toks ! (p + 2) = HAT"
      "?toks ! (p + 3) = CONSTVAL (DVal 2)" "?toks ! (p + 4) = BRKCL"
      "?toks ! (p + 5) = COMP LEQ" "?toks ! (p + 5 + 1) = CONSTVAL k"
    using nth [of 0] nth [of 1] nth [of 2] nth [of 3] nth [of 4] nth [of 5] nth [of 6]
    by (simp_all add: eval_nat_numeral)
  define b1 where "b1 = snd (getvarbyname (builder r) x)"
  define c where "c = \<lparr>con_lowerbound = NegInf, con_upperbound = k,
               con_expr = \<lparr>linterms = [],
                  quadterms = [\<lparr>quad_coef = DVal 1, quad_var1 = x, quad_var2 = x\<rparr>],
                  offset = DVal 0, expr_name = []\<rparr>\<rparr>"
  define b' where "b' = b1\<lparr>model := (model b1)
                     \<lparr>constraints := constraints (model (builder r)) @ [c]\<rparr>\<rparr>"
  have pe: "parseexpression fadd ?toks p (p + 7) (con_expr new_Constraint) False (builder r)
       = Inr (p + 5,
              (con_expr new_Constraint)\<lparr>quadterms := quadterms (con_expr new_Constraint)
                 @ [\<lparr>quad_coef = DVal 1, quad_var1 = x, quad_var2 = x\<rparr>]\<rparr>,
              snd (getvarbyname (builder r) x))"
    using assms(2) t(6) by (intro parseexpression_square_con t) simp_all
  have pc: "processcon fadd ?toks (p + 7) p (builder r) = Inr (p + 7, b')"
    unfolding processcon_def Let_def pe
    using assms(2) t(6,7)
    by (simp add: new_Constraint_def new_Expression_def getvarbyname_constraints
          b'_def b1_def c_def eval_nat_numeral)
  have "consec_loop fadd ?toks (p + 7) (p, builder r)
      = consec_loop fadd ?toks (p + 7) (p + 7, b')"
    using assms(2) by (intro consec_loop_step pc) (simp_all add: in_range_def)
  then have loop: "consec_loop fadd ?toks (p + 7) (p, builder r) = Inr (p + 7, b')"
    by (simp add: consec_loop_end)
  have "processconsec fadd r
      = Inr (r\<lparr>sectiontokens := set_first (sectiontokens r) CON (p + 7), builder := b'\<rparr>)"
    using assms(1) loop by (simp add: processconsec_def with_section_def entry_Some)
  then show ?thesis
    by (simp add: b'_def c_def)
qed

lemma processconsec_square_slash_fails:
  assumes "sectiontokens r CON = Some (p, sec_end)"
    and "p + 7 \<le> sec_end" "sec_end \<le> length (processedtokens r)"
    and "take 7 (drop p (processedtokens r))
           = [BRKOP, VARID x, HAT, CONSTVAL (DVal 2), BRKCL, SLASH, CONSTVAL (DVal 2)]"
  shows "processconsec fadd r = Inl MalformedSection"
proof -
  let ?toks = "processedtokens r"
  note nth = nth_of_take_drop [OF assms(4)]
  have t: "?toks ! p = BRKOP" "?toks ! (p + 1) = VARID x" "?toks ! (p + 2) = HAT"
      "?toks ! (p + 3) = CONSTVAL (DVal 2)" "?toks ! (p + 4) = BRKCL"
      "?toks ! (p + 5) = SLASH"
    using nth [of 0] nth [of 1] nth [of 2] nth [of 3] nth [of 4] nth [of 5]
    by (simp_all add: eval_nat_numeral)
  have pe: "parseexpression fadd ?toks p sec_end (con_expr new_Constraint) False (builder r)
       = Inr (p + 5,
              (con_expr new_Constraint)\<lparr>quadterms := quadterms (con_expr new_Constraint)
                 @ [\<lparr>quad_coef = DVal 1, quad_var1 = x, quad_var2 = x\<rparr>]\<rparr>,
              snd (getvarbyname (builder r) x))"
    using assms(2,3) t(6) by (intro parseexpression_square_con t) simp_all
  have pc: "processcon fadd ?toks sec_end p (builder r) = Inl MalformedSection"
    unfolding processcon_def Let_def pe
    using assms(2,3) t(6) by simp
  have "consec_loop fadd ?toks sec_end (p, builder r) = Inl MalformedSection"
    using assms(2,3) by (intro consec_loop_fail pc) (simp_all add: in_range_def)
  then show ?thesis
    using assms(1) by (simp add: processconsec_def with_section_def entry_Some)
qed


text \<open>
  C5.  At an opening bracket that is not the last token of its range the parser reads
  the terms of the group up to a position \<open>j\<close> and then looks at the end of the group.
  \<^item> In the objective it goes on exactly when \<open>j\<close> holds the closing bracket and the two
    tokens after it, still inside the range, are the slash and the constant 2.0; it
    then continues after the constant.  When \<open>j\<close> is inside the range and this is not
    so, the parse fails with \<open>MalformedExpression\<close>.
  \<^item> Outside the objective it goes on exactly when \<open>j\<close> holds the closing bracket, and
    continues right after it.
  \<^item> An objective section \<open>[ x ^ 2 ] / 2\<close> is processed without error and gives the
    objective the one quadratic term with coefficient 1.0 and both variables \<open>x\<close>, and
    nothing else.
  \<^item> A constraint section that starts with \<open>[ x ^ 2 ] / 2\<close> fails: the expression ends
    after the bracket and the slash is not a comparison.  Without the \<open>/ 2\<close>, as in
    \<open>[ x ^ 2 ] \<le> k\<close>, the constraint is accepted with the same quadratic term.
\<close>

theorem quadratic_group_end:
  "(is_BRKOP (toks ! it) \<and> it + 1 \<noteq> sec_end \<longrightarrow>
      (parseterm fadd toks sec_end True it expr b = Inr (Some (it', expr', b')) \<longleftrightarrow>
         (\<exists>j. parsequad toks sec_end (it + 1, expr, b) = Inr (j, expr', b')
            \<and> j + 1 \<noteq> sec_end \<and> j + 2 \<noteq> sec_end \<and> j + 2 < length toks
            \<and> is_BRKCL (toks ! j) \<and> is_SLASH (toks ! (j + 1))
            \<and> toks ! (j + 2) = CONSTVAL (DVal 2) \<and> it' = j + 3))
    \<and> (parseterm fadd toks sec_end False it expr b = Inr (Some (it', expr', b')) \<longleftrightarrow>
         (\<exists>j. parsequad toks sec_end (it + 1, expr, b) = Inr (j, expr', b')
            \<and> j \<noteq> sec_end \<and> j < length toks \<and> is_BRKCL (toks ! j) \<and> it' = j + 1)))
   \<and> (is_BRKOP (toks ! it) \<and> it + 1 \<noteq> sec_end
        \<and> parsequad toks sec_end (it + 1, expr, b) = Inr (j, expr1, b1)
        \<and> j < sec_end \<and> sec_end \<le> length toks
        \<and> \<not> (j + 2 < sec_end \<and> is_BRKCL (toks ! j) \<and> is_SLASH (toks ! (j + 1))
            \<and> toks ! (j + 2) = CONSTVAL (DVal 2))
      \<longrightarrow> parseterm fadd toks sec_end True it expr b = Inl MalformedExpression)
   \<and> ((kw = OBJMIN \<or> (kw = OBJMAX \<and> sectiontokens robj OBJMIN = None))
        \<and> sectiontokens robj kw = Some (pobj, pobj + 7)
        \<and> pobj + 7 \<le> length (processedtokens robj)
        \<and> take 7 (drop pobj (processedtokens robj))
             = [BRKOP, VARID x, HAT, CONSTVAL (DVal 2), BRKCL, SLASH, CONSTVAL (DVal 2)]
      \<longrightarrow> (\<exists>r'. processobjsec fadd robj = Inr r'
            \<and> objective (model (builder r'))
                = \<lparr>linterms = [],
                   quadterms = [\<lparr>quad_coef = DVal 1, quad_var1 = x, quad_var2 = x\<rparr>],
                   offset = DVal 0, expr_name = []\<rparr>))
   \<and> (sectiontokens rbad CON = Some (pbad, ebad)
        \<and> pbad + 7 \<le> ebad \<and> ebad \<le> length (processedtokens rbad)
        \<and> take 7 (drop pbad (processedtokens rbad))
             = [BRKOP, VARID x, HAT, CONSTVAL (DVal 2), BRKCL, SLASH, CONSTVAL (DVal 2)]
      \<longrightarrow> processconsec fadd rbad = Inl MalformedSection)
   \<and> (sectiontokens rcon CON = Some (pcon, pcon + 7)
        \<and> pcon + 7 \<le> length (processedtokens rcon)
        \<and> take 7 (drop pcon (processedtokens rcon))
             = [BRKOP, VARID x, HAT, CONSTVAL (DVal 2), BRKCL, COMP LEQ, CONSTVAL k]
      \<longrightarrow> (\<exists>r'. processconsec fadd rcon = Inr r'
            \<and> constraints (model (builder r'))
                = constraints (model (builder rcon))
                  @ [\<lparr>con_lowerbound = NegInf, con_upperbound = k,
                      con_expr = \<lparr>linterms = [],
                         quadterms = [\<lparr>quad_coef = DVal 1, quad_var1 = x, quad_var2 = x\<rparr>],
                         offset = DVal 0, expr_name = []\<rparr>\<rparr>]))"
proof (intro conjI impI)
  assume a: "is_BRKOP (toks ! it) \<and> it + 1 \<noteq> sec_end"
  then show "parseterm fadd toks sec_end True it expr b = Inr (Some (it', expr', b')) \<longleftrightarrow>
         (\<exists>j. parsequad toks sec_end (it + 1, expr, b) = Inr (j, expr', b')
            \<and> j + 1 \<noteq> sec_end \<and> j + 2 \<noteq> sec_end \<and> j + 2 < length toks
            \<and> is_BRKCL (toks ! j) \<and> is_SLASH (toks ! (j + 1))
            \<and> toks ! (j + 2) = CONSTVAL (DVal 2) \<and> it' = j + 3)"
    by (intro parseterm_group_obj_iff) simp_all
  from a show "parseterm fadd toks sec_end False it expr b = Inr (Some (it', expr', b')) \<longleftrightarrow>
         (\<exists>j. parsequad toks sec_end (it + 1, expr, b) = Inr (j, expr', b')
            \<and> j \<noteq> sec_end \<and> j < length toks \<and> is_BRKCL (toks ! j) \<and> it' = j + 1)"
    by (intro parseterm_group_con_iff) simp_all
next
  assume "is_BRKOP (toks ! it) \<and> it + 1 \<noteq> sec_end
        \<and> parsequad toks sec_end (it + 1, expr, b) = Inr (j, expr1, b1)
        \<and> j < sec_end \<and> sec_end \<le> length toks
        \<and> \<not> (j + 2 < sec_end \<and> is_BRKCL (toks ! j) \<and> is_SLASH (toks ! (j + 1))
            \<and> toks ! (j + 2) = CONSTVAL (DVal 2))"
  then show "parseterm fadd toks sec_end True it expr b = Inl MalformedExpression"
    by (intro parseterm_group_obj_fail [of toks it sec_end expr b j expr1 b1]) simp_all
next
  assume "(kw = OBJMIN \<or> (kw = OBJMAX \<and> sectiontokens robj OBJMIN = None))
        \<and> sectiontokens robj kw = Some (pobj, pobj + 7)
        \<and> pobj + 7 \<le> length (processedtokens robj)
        \<and> take 7 (drop pobj (processedtokens robj))
             = [BRKOP, VARID x, HAT, CONSTVAL (DVal 2), BRKCL, SLASH, CONSTVAL (DVal 2)]"
  then show "\<exists>r'. processobjsec fadd robj = Inr r'
            \<and> objective (model (builder r'))
                = \<lparr>linterms = [],
                   quadterms = [\<lparr>quad_coef = DVal 1, quad_var1 = x, quad_var2 = x\<rparr>],
                   offset = DVal 0, expr_name = []\<rparr>"
    by (intro processobjsec_square [of kw robj pobj x fadd]) simp_all
next
  assume "sectiontokens rbad CON = Some (pbad, ebad)
        \<and> pbad + 7 \<le> ebad \<and> ebad \<le> length (processedtokens rbad)
        \<and> take 7 (drop pbad (processedtokens rbad))
             = [BRKOP, VARID x, HAT, CONSTVAL (DVal 2), BRKCL, SLASH, CONSTVAL (DVal 2)]"
  then show "processconsec fadd rbad = Inl MalformedSection"
    by (intro processconsec_square_slash_fails [of rbad pbad ebad x fadd]) simp_all
next
  assume "sectiontokens rcon CON = Some (pcon, pcon + 7)
        \<and> pcon + 7 \<le> length (processedtokens rcon)
        \<and> take 7 (drop pcon (processedtokens rcon))
             = [BRKOP, VARID x, HAT, CONSTVAL (DVal 2), BRKCL, COMP LEQ, CONSTVAL k]"
  then show "\<exists>r'. processconsec fadd rcon = Inr r'
            \<and> constraints (model (builder r'))
                = constraints (model (builder rcon))
                  @ [\<lparr>con_lowerbound = NegInf, con_upperbound = k,
                      con_expr = \<lparr>linterms = [],
                         quadterms = [\<lparr>quad_coef = DVal 1, quad_var1 = x, quad_var2 = x\<rparr>],
                         offset = DVal 0, expr_name = []\<rparr>\<rparr>]"
    by (intro processconsec_square_leq [of rcon pcon x k fadd]) simp_all
qed


theorem quadratic_group_end_witness:
  "\<forall>fadd.
     parseterm fadd [BRKOP, VARID ''x'', HAT, CONSTVAL (DVal 2), BRKCL, SLASH, CONSTVAL (DVal 2)]
         7 True 0 new_Expression (new_Builder SenseMIN)
       = Inr (Some (7, new_Expression\<lparr>quadterms :=
                          [\<lparr>quad_coef = DVal 1, quad_var1 = ''x'', quad_var2 = ''x''\<rparr>]\<rparr>,
                    snd (getvarbyname (new_Builder SenseMIN) ''x'')))
   \<and> parseterm fadd [BRKOP, VARID ''x'', HAT, CONSTVAL (DVal 2), BRKCL, COMP LEQ, CONSTVAL (DVal 5)]
         7 False 0 new_Expression (new_Builder SenseMIN)
       = Inr (Some (5, new_Expression\<lparr>quadterms :=
                          [\<lparr>quad_coef = DVal 1, quad_var1 = ''x'', quad_var2 = ''x''\<rparr>]\<rparr>,
                    snd (getvarbyname (new_Builder SenseMIN) ''x'')))
   \<and> parseterm fadd [BRKOP, VARID ''x'', HAT, CONSTVAL (DVal 2), BRKCL, COMP LEQ, CONSTVAL (DVal 5)]
         7 True 0 new_Expression (new_Builder SenseMIN)
       = Inl MalformedExpression
   \<and> (\<exists>r'. processobjsec fadd
          \<lparr>processedtokens = [SECID OBJMIN, BRKOP, VARID ''x'', HAT, CONSTVAL (DVal 2), BRKCL,
                              SLASH, CONSTVAL (DVal 2)],
           sectiontokens = [OBJMIN \<mapsto> (1, 8)], builder = new_Builder SenseMAX\<rparr> = Inr r'
        \<and> objective (model (builder r'))
            = \<lparr>linterms = [],
               quadterms = [\<lparr>quad_coef = DVal 1, quad_var1 = ''x'', quad_var2 = ''x''\<rparr>],
               offset = DVal 0, expr_name = []\<rparr>)
   \<and> processconsec fadd
          \<lparr>processedtokens = [SECID CON, BRKOP, VARID ''x'', HAT, CONSTVAL (DVal 2), BRKCL,
                              SLASH, CONSTVAL (DVal 2), COMP LEQ, CONSTVAL (DVal 5)],
           sectiontokens = [CON \<mapsto> (1, 10)], builder = new_Builder SenseMIN\<rparr>
       = Inl MalformedSection
   \<and> (\<exists>r'. processconsec fadd
          \<lparr>processedtokens = [SECID CON, BRKOP, VARID ''x'', HAT, CONSTVAL (DVal 2), BRKCL,
                              COMP LEQ, CONSTVAL (DVal 5)],
           sectiontokens = [CON \<mapsto> (1, 8)], builder = new_Builder SenseMIN\<rparr> = Inr r'
        \<and> constraints (model (builder r'))
            = [\<lparr>con_lowerbound = NegInf, con_upperbound = DVal 5,
                con_expr = \<lparr>linterms = [],
                   quadterms = [\<lparr>quad_coef = DVal 1, quad_var1 = ''x'', quad_var2 = ''x''\<rparr>],
                   offset = DVal 0, expr_name = []\<rparr>\<rparr>])"
proof (intro allI)
  fix fadd :: addition
  let ?t0 = "[BRKOP, VARID ''x'', HAT, CONSTVAL (DVal 2), BRKCL, SLASH, CONSTVAL (DVal 2)]"
  let ?t1 = "[BRKOP, VARID ''x'', HAT, CONSTVAL (DVal 2), BRKCL, COMP LEQ, CONSTVAL (DVal 5)]"
  let ?e0 = "new_Expression"
  let ?b0 = "new_Builder SenseMIN"
  let ?e1 = "new_Expression\<lparr>quadterms :=
                          [\<lparr>quad_coef = DVal 1, quad_var1 = ''x'', quad_var2 = ''x''\<rparr>]\<rparr>"
  let ?b1 = "snd (getvarbyname (new_Builder SenseMIN) ''x'')"
  let ?robj = "\<lparr>processedtokens = [SECID OBJMIN, BRKOP, VARID ''x'', HAT, CONSTVAL (DVal 2),
                              BRKCL, SLASH, CONSTVAL (DVal 2)],
           sectiontokens = [OBJMIN \<mapsto> (1, 8)], builder = new_Builder SenseMAX\<rparr>"
  let ?rbad = "\<lparr>processedtokens = [SECID CON, BRKOP, VARID ''x'', HAT, CONSTVAL (DVal 2), BRKCL,
                              SLASH, CONSTVAL (DVal 2), COMP LEQ, CONSTVAL (DVal 5)],
           sectiontokens = [CON \<mapsto> (1, 10)], builder = new_Builder SenseMIN\<rparr>"
  let ?rok = "\<lparr>processedtokens = [SECID CON, BRKOP, VARID ''x'', HAT, CONSTVAL (DVal 2), BRKCL,
                              COMP LEQ, CONSTVAL (DVal 5)],
           sectiontokens = [CON \<mapsto> (1, 8)], builder = new_Builder SenseMIN\<rparr>"
  have q0: "parsequad ?t0 7 (0 + 1, ?e0, ?b0) = Inr (4, ?e1, ?b1)"
    using parsequad_square [of ?t0 1 "''x''" 7 ?e0 ?b0]
    by (simp add: eval_nat_numeral new_Expression_def)
  have q1: "parsequad ?t1 7 (0 + 1, ?e0, ?b0) = Inr (4, ?e1, ?b1)"
    using parsequad_square [of ?t1 1 "''x''" 7 ?e0 ?b0]
    by (simp add: eval_nat_numeral new_Expression_def)
  note inst = quadratic_group_end [where fadd = fadd and x = "''x''" and k = "DVal 5"
      and kw = OBJMIN and robj = "?robj" and pobj = 1
      and rbad = "?rbad" and pbad = 1 and ebad = 10 and rcon = "?rok" and pcon = 1]
  have w1: "parseterm fadd ?t0 7 True 0 ?e0 ?b0 = Inr (Some (7, ?e1, ?b1))"
  proof -
    have "\<exists>j. parsequad ?t0 7 (0 + 1, ?e0, ?b0) = Inr (j, ?e1, ?b1)
            \<and> j + 1 \<noteq> 7 \<and> j + 2 \<noteq> 7 \<and> j + 2 < length ?t0
            \<and> is_BRKCL (?t0 ! j) \<and> is_SLASH (?t0 ! (j + 1))
            \<and> ?t0 ! (j + 2) = CONSTVAL (DVal 2) \<and> (7::nat) = j + 3"
      using q0 by (intro exI [of _ 4]) (simp add: eval_nat_numeral)
    then show ?thesis
      using inst [of ?t0 0 7 ?e0 ?b0 7 ?e1 ?b1] by simp
  qed
  have w2: "parseterm fadd ?t1 7 False 0 ?e0 ?b0 = Inr (Some (5, ?e1, ?b1))"
  proof -
    have "\<exists>j. parsequad ?t1 7 (0 + 1, ?e0, ?b0) = Inr (j, ?e1, ?b1)
            \<and> j \<noteq> 7 \<and> j < length ?t1 \<and> is_BRKCL (?t1 ! j) \<and> (5::nat) = j + 1"
      using q1 by (intro exI [of _ 4]) (simp add: eval_nat_numeral)
    then show ?thesis
      using inst [of ?t1 0 7 ?e0 ?b0 5 ?e1 ?b1] by simp
  qed
  have w3: "parseterm fadd ?t1 7 True 0 ?e0 ?b0 = Inl MalformedExpression"
    using inst [of ?t1 0 7 ?e0 ?b0 _ _ _ 4 ?e1 ?b1] q1
    by (simp add: eval_nat_numeral)
  have w4: "\<exists>r'. processobjsec fadd ?robj = Inr r'
        \<and> objective (model (builder r'))
            = \<lparr>linterms = [],
               quadterms = [\<lparr>quad_coef = DVal 1, quad_var1 = ''x'', quad_var2 = ''x''\<rparr>],
               offset = DVal 0, expr_name = []\<rparr>"
    using inst by (simp add: eval_nat_numeral)
  have w5: "processconsec fadd ?rbad = Inl MalformedSection"
    using inst by (simp add: eval_nat_numeral)
  have w6: "\<exists>r'. processconsec fadd ?rok = Inr r'
        \<and> constraints (model (builder r'))
            = [\<lparr>con_lowerbound = NegInf, con_upperbound = DVal 5,
                con_expr = \<lparr>linterms = [],
                   quadterms = [\<lparr>quad_coef = DVal 1, quad_var1 = ''x'', quad_var2 = ''x''\<rparr>],
                   offset = DVal 0, expr_name = []\<rparr>\<rparr>]"
    using inst by (simp add: eval_nat_numeral new_Builder_def)
  show "parseterm fadd ?t0 7 True 0 ?e0 ?b0 = Inr (Some (7, ?e1, ?b1))
   \<and> parseterm fadd ?t1 7 False 0 ?e0 ?b0 = Inr (Some (5, ?e1, ?b1))
   \<and> parseterm fadd ?t1 7 True 0 ?e0 ?b0 = Inl MalformedExpression
   \<and> (\<exists>r'. processobjsec fadd ?robj = Inr r'
        \<and> objective (model (builder r'))
            = \<lparr>linterms = [],
               quadterms = [\<lparr>quad_coef = DVal 1, quad_var1 = ''x'', quad_var2 = ''x''\<rparr>],
               offset = DVal 0, expr_name = []\<rparr>)
   \<and> processconsec fadd ?rbad = Inl MalformedSection
   \<and> (\<exists>r'. processconsec fadd ?rok = Inr r'
        \<and> constraints (model (builder r'))
            = [\<lparr>con_lowerbound = NegInf, con_upperbound = DVal 5,
                con_expr = \<lparr>linterms = [],
                   quadterms = [\<lparr>quad_coef = DVal 1, quad_var1 = ''x'', quad_var2 = ''x''\<rparr>],
                   offset = DVal 0, expr_name = []\<rparr>\<rparr>])"
    using w1 w2 w3 w4 w5 w6 by blast
qed

section \<open>Properties of the lexer\<close>

text \<open>
  A conversion for examples: a text that starts with decimal digits is converted to
  the value of the run of digits, any other text is not converted.  This is what
  \<^verbatim>\<open>strtod\<close> returns on a text that starts with a character other than white space, a
  sign, a point, a digit and the letters \<^verbatim>\<open>i\<close>, \<^verbatim>\<open>n\<close>, \<^verbatim>\<open>I\<close>, \<^verbatim>\<open>N\<close>, and on a run of digits
  with a value below \<open>2\<^sup>5\<^sup>3\<close> that is followed by none of a digit, a point, \<^verbatim>\<open>e\<close>, \<^verbatim>\<open>E\<close>, \<^verbatim>\<open>x\<close>, \<^verbatim>\<open>X\<close>.
\<close>

definition is_digit :: "char \<Rightarrow> bool" where
  "is_digit c = (c \<in> set ''0123456789'')"

definition decimal :: "string \<Rightarrow> nat" where
  "decimal ds = foldl (\<lambda>n c. 10 * n + (of_char c - 48)) 0 ds"

definition strtod_digits :: conversion where
  "strtod_digits s =
     (let ds = takeWhile is_digit s in
      if ds = [] then (DVal 0, 0) else (DVal (of_nat (decimal ds)), length ds))"

text \<open>The characters that the \<^verbatim>\<open>switch\<close> of \<^verbatim>\<open>Reader::readnexttoken\<close> has a case for.\<close>

definition switch_cases :: "char list" where
  "switch_cases =
     [CHR 0x5C, CHR ''['', CHR '']'', CHR ''<'', CHR ''>'', CHR ''='', CHR '':'', CHR ''+'',
      CHR ''^'', CHR ''/'', CHR ''*'', CHR ''-'', CHR '' '', CHR 0x09, CHR '';'', CHR 0x0A,
      CHR 0x00]"

lemma identifier_end_switch_cases: "set identifier_end \<subseteq> set switch_cases"
  by (simp add: identifier_end_def switch_cases_def)

lemma takeWhile_stop:
  "length (takeWhile P xs) = length xs \<or>
   (length (takeWhile P xs) < length xs \<and> \<not> P (xs ! length (takeWhile P xs)))"
  by (metis le_neq_implies_less length_takeWhile_le nth_length_takeWhile)

text \<open>
  C4, as amended.  When the line has a character at the current position that no case of the
  switch handles, and the numeric conversion consumes nothing there, the lexer returns
  a string token and moves behind it.  The string is the longest run of characters
  from the position on that holds none of tab, newline, backslash, colon, plus, less,
  greater, caret, equals, space, slash, minus and asterisk: it is not empty, holds none
  of these characters, and ends at the end of the line or in front of one of them.
\<close>

theorem readnexttoken_identifier_run:
  assumes "linebufferpos lx < length (linebuffer lx)"
    and "linebuffer lx ! linebufferpos lx \<notin> set switch_cases"
    and "snd (strtod (drop (linebufferpos lx) (linebuffer lx))) = 0"
  shows "\<exists>run. readnexttoken strtod lx
            = Inr (Some (RawSTR run), lx\<lparr>linebufferpos := linebufferpos lx + length run\<rparr>)
          \<and> run = takeWhile (\<lambda>c. c \<notin> set identifier_end) (drop (linebufferpos lx) (linebuffer lx))
          \<and> run \<noteq> []
          \<and> set run \<inter> set identifier_end = {}
          \<and> (linebufferpos lx + length run = length (linebuffer lx)
              \<or> (linebufferpos lx + length run < length (linebuffer lx)
                  \<and> linebuffer lx ! (linebufferpos lx + length run) \<in> set identifier_end))"
proof -
  define buf where "buf = linebuffer lx"
  define pos where "pos = linebufferpos lx"
  define run where "run = takeWhile (\<lambda>c. c \<notin> set identifier_end) (drop pos buf)"
  from assms(1) have inside: "pos < length buf" by (simp add: buf_def pos_def)
  from assms(2) have nosw: "buf ! pos \<notin> set switch_cases" by (simp add: buf_def pos_def)
  with identifier_end_switch_cases have noend: "buf ! pos \<notin> set identifier_end" by blast
  from inside have dr: "drop pos buf = buf ! pos # drop (Suc pos) buf"
    by (simp add: Cons_nth_drop_Suc)
  with noend have ne: "run \<noteq> []" by (simp add: run_def)
  have disj: "set run \<inter> set identifier_end = {}"
    using set_takeWhileD [of _ "\<lambda>c. c \<notin> set identifier_end" "drop pos buf"]
    by (auto simp: run_def)
  have tk: "take (length run) (drop pos buf) = run"
    unfolding run_def by (metis takeWhile_eq_take)
  have stop: "pos + length run = length buf
      \<or> (pos + length run < length buf \<and> buf ! (pos + length run) \<in> set identifier_end)"
    using takeWhile_stop [of "\<lambda>c. c \<notin> set identifier_end" "drop pos buf"] inside
    by (auto simp: run_def)
  obtain d where conv: "strtod (drop pos buf) = (d, 0)"
    using assms(3) by (cases "strtod (drop pos buf)") (simp add: buf_def pos_def)
  from nosw have sw: "buf ! pos \<noteq> CHR 0x5C" "buf ! pos \<noteq> CHR ''[''" "buf ! pos \<noteq> CHR '']''"
    "buf ! pos \<noteq> CHR ''<''" "buf ! pos \<noteq> CHR ''>''" "buf ! pos \<noteq> CHR ''=''"
    "buf ! pos \<noteq> CHR '':''" "buf ! pos \<noteq> CHR ''+''" "buf ! pos \<noteq> CHR ''^''"
    "buf ! pos \<noteq> CHR ''/''" "buf ! pos \<noteq> CHR ''*''" "buf ! pos \<noteq> CHR ''-''"
    "buf ! pos \<noteq> CHR '' ''" "buf ! pos \<noteq> CHR 0x09" "buf ! pos \<noteq> CHR '';''"
    "buf ! pos \<noteq> CHR 0x0A" "buf ! pos \<noteq> CHR 0x00"
    by (simp_all add: switch_cases_def)
  have ffo: "find_first_of buf identifier_end pos = pos + length run"
    by (simp add: find_first_of_def run_def)
  from ne have pos_run: "pos < pos + length run" by simp
  have "readnexttoken strtod lx
      = Inr (Some (RawSTR run), lx\<lparr>linebufferpos := pos + length run\<rparr>)"
    using assms(1) inside sw conv ffo pos_run tk
    unfolding buf_def pos_def readnexttoken_def Let_def by simp
  with ne disj stop show ?thesis
    unfolding run_def buf_def pos_def by blast
qed

theorem readnexttoken_identifier_run_witness:
  "readnexttoken strtod_digits
     \<lparr>infile = [], eofbit = True, linebuffer = ''ab;c d'', linebufferpos = 0\<rparr>
   = Inr (Some (RawSTR ''ab;c''),
          \<lparr>infile = [], eofbit = True, linebuffer = ''ab;c d'', linebufferpos = 4\<rparr>)"
  using readnexttoken_identifier_run
    [of "\<lparr>infile = [], eofbit = True, linebuffer = ''ab;c d'', linebufferpos = 0\<rparr>" strtod_digits]
  by (simp add: switch_cases_def identifier_end_def strtod_digits_def is_digit_def)

text \<open>
  C4 as stated fails: a bracket or a semicolon inside a run does not end it.  The first
  call on a file with the single line \<^verbatim>\<open>x[1];y\<close> reads the line and returns all of it as
  one string token.
\<close>

theorem readnexttoken_bracket_semicolon_in_run:
  "readnexttoken strtod_digits
     \<lparr>infile = ''x[1];y'', eofbit = False, linebuffer = [], linebufferpos = 0\<rparr>
   = Inr (Some (RawSTR ''x[1];y''),
          \<lparr>infile = [], eofbit = True, linebuffer = ''x[1];y'', linebufferpos = 6\<rparr>)"
  by (simp add: readnexttoken_def readline_def find_first_of_def identifier_end_def
                strtod_digits_def is_digit_def Let_def)

section \<open>A special-ordered-set section read from text\<close>

lemma nextrawtoken_2: "nextrawtoken strtod 2 sc = nextrawtoken strtod (Suc (Suc 0)) sc"
  by (simp only: numeral_2_eq_2)

lemma nextrawtoken_3: "nextrawtoken strtod 3 sc = nextrawtoken strtod (Suc (Suc (Suc 0))) sc"
  by (simp only: numeral_3_eq_3)

lemma readfirst_5:
  "readfirst strtod 5 i sc = readfirst strtod (Suc (Suc (Suc (Suc (Suc 0))))) i sc"
  by (simp add: eval_nat_numeral)

lemmas lexer_eval = nexttoken.simps readnexttoken_def readline_def Let_def case_prod_beta
  find_first_of_def identifier_end_def

lemmas classifier_eval = processtokens.simps processtoken_def classify_def rawtoken_def
  and_then_def parsesectionkeyword_def tolower_def iskeyword_def
  LP_KEYWORD_MIN_def LP_KEYWORD_MAX_def LP_KEYWORD_ST_def LP_KEYWORD_BOUNDS_def
  LP_KEYWORD_BIN_def LP_KEYWORD_GEN_def LP_KEYWORD_SEMI_def LP_KEYWORD_SOS_def
  LP_KEYWORD_END_def LP_KEYWORD_FREE_def LP_KEYWORD_INF_def nextrawtoken_2 nextrawtoken_3

text \<open>The text of the section alone.\<close>

lemma tokenize_sos_text:
  assumes "snd (strtod ''setA: S1:: x1:1 x2:2'') = 0"
    and "snd (strtod ''S1:: x1:1 x2:2'') = 0"
    and "snd (strtod ''x1:1 x2:2'') = 0"
    and "strtod ''1 x2:2'' = (DVal 1, 1)"
    and "snd (strtod ''x2:2'') = 0"
    and "strtod ''2'' = (DVal 2, 1)"
  shows "tokenize strtod ''setA: S1:: x1:1 x2:2''
     = Inr [CONID ''setA'', SOSTYPE SOS1, CONID ''x1'', CONSTVAL (DVal 1), CONID ''x2'',
            CONSTVAL (DVal 2)]"
proof -
  define L where "L p = \<lparr>infile = [], eofbit = True, linebuffer = ''setA: S1:: x1:1 x2:2'',
                         linebufferpos = p\<rparr>" for p
  have n0: "nexttoken strtod \<lparr>infile = ''setA: S1:: x1:1 x2:2'', eofbit = False, linebuffer = [],
                               linebufferpos = 0\<rparr> = Inr (RawSTR ''setA'', L 4)"
    using assms(1) by (simp add: L_def lexer_eval)
  have n4: "nexttoken strtod (L 4) = Inr (RawCOLON, L 5)" by (simp add: L_def lexer_eval)
  have n5: "nexttoken strtod (L 5) = Inr (RawSTR ''S1'', L 8)"
    using assms(2) by (simp add: L_def lexer_eval)
  have n8: "nexttoken strtod (L 8) = Inr (RawCOLON, L 9)" by (simp add: L_def lexer_eval)
  have n9: "nexttoken strtod (L 9) = Inr (RawCOLON, L 10)" by (simp add: L_def lexer_eval)
  have n10: "nexttoken strtod (L 10) = Inr (RawSTR ''x1'', L 13)"
    using assms(3) by (simp add: L_def lexer_eval)
  have n13: "nexttoken strtod (L 13) = Inr (RawCOLON, L 14)" by (simp add: L_def lexer_eval)
  have n14: "nexttoken strtod (L 14) = Inr (RawCONS (DVal 1), L 15)"
    using assms(4) by (simp add: L_def lexer_eval)
  have n15: "nexttoken strtod (L 15) = Inr (RawSTR ''x2'', L 18)"
    using assms(5) by (simp add: L_def lexer_eval)
  have n18: "nexttoken strtod (L 18) = Inr (RawCOLON, L 19)" by (simp add: L_def lexer_eval)
  have n19: "nexttoken strtod (L 19) = Inr (RawCONS (DVal 2), L 20)"
    using assms(6) by (simp add: L_def lexer_eval)
  have n20: "nexttoken strtod (L 20) = Inr (RawFLEND, L 20)" by (simp add: L_def lexer_eval)
  show ?thesis
    by (simp add: tokenize_def new_Scanner_def readfirst_5 classifier_eval
                  n0 n4 n5 n8 n9 n10 n13 n14 n15 n18 n19 n20)
qed

text \<open>The same line between the keyword lines \<^verbatim>\<open>sos\<close> and \<^verbatim>\<open>end\<close>.\<close>

lemma tokenize_sos_file:
  assumes "snd (strtod ''sos'') = 0"
    and "snd (strtod ''setA: S1:: x1:1 x2:2'') = 0"
    and "snd (strtod ''S1:: x1:1 x2:2'') = 0"
    and "snd (strtod ''x1:1 x2:2'') = 0"
    and "strtod ''1 x2:2'' = (DVal 1, 1)"
    and "snd (strtod ''x2:2'') = 0"
    and "strtod ''2'' = (DVal 2, 1)"
    and "snd (strtod ''end'') = 0"
  shows "tokenize strtod (''sos\<newline>setA: S1:: x1:1 x2:2\<newline>end'')
     = Inr [SECID SOS, CONID ''setA'', SOSTYPE SOS1, CONID ''x1'', CONSTVAL (DVal 1),
            CONID ''x2'', CONSTVAL (DVal 2), SECID END]"
proof -
  define A where "A p = \<lparr>infile = ''setA: S1:: x1:1 x2:2\<newline>end'', eofbit = False,
                         linebuffer = ''sos'', linebufferpos = p\<rparr>" for p
  define L where "L p = \<lparr>infile = ''end'', eofbit = False, linebuffer = ''setA: S1:: x1:1 x2:2'',
                         linebufferpos = p\<rparr>" for p
  define E where "E p = \<lparr>infile = [], eofbit = True, linebuffer = ''end'', linebufferpos = p\<rparr>" for p
  have a0: "nexttoken strtod
              \<lparr>infile = ''sos\<newline>setA: S1:: x1:1 x2:2\<newline>end'',
               eofbit = False, linebuffer = [], linebufferpos = 0\<rparr> = Inr (RawSTR ''sos'', A 3)"
    using assms(1) by (simp add: A_def lexer_eval)
  have a3: "nexttoken strtod (A 3) = Inr (RawSTR ''setA'', L 4)"
    using assms(2) by (simp add: A_def L_def lexer_eval)
  have n4: "nexttoken strtod (L 4) = Inr (RawCOLON, L 5)" by (simp add: L_def lexer_eval)
  have n5: "nexttoken strtod (L 5) = Inr (RawSTR ''S1'', L 8)"
    using assms(3) by (simp add: L_def lexer_eval)
  have n8: "nexttoken strtod (L 8) = Inr (RawCOLON, L 9)" by (simp add: L_def lexer_eval)
  have n9: "nexttoken strtod (L 9) = Inr (RawCOLON, L 10)" by (simp add: L_def lexer_eval)
  have n10: "nexttoken strtod (L 10) = Inr (RawSTR ''x1'', L 13)"
    using assms(4) by (simp add: L_def lexer_eval)
  have n13: "nexttoken strtod (L 13) = Inr (RawCOLON, L 14)" by (simp add: L_def lexer_eval)
  have n14: "nexttoken strtod (L 14) = Inr (RawCONS (DVal 1), L 15)"
    using assms(5) by (simp add: L_def lexer_eval)
  have n15: "nexttoken strtod (L 15) = Inr (RawSTR ''x2'', L 18)"
    using assms(6) by (simp add: L_def lexer_eval)
  have n18: "nexttoken strtod (L 18) = Inr (RawCOLON, L 19)" by (simp add: L_def lexer_eval)
  have n19: "nexttoken strtod (L 19) = Inr (RawCONS (DVal 2), L 20)"
    using assms(7) by (simp add: L_def lexer_eval)
  have n20: "nexttoken strtod (L 20) = Inr (RawSTR ''end'', E 3)"
    using assms(8) by (simp add: L_def E_def lexer_eval)
  have e3: "nexttoken strtod (E 3) = Inr (RawFLEND, E 3)" by (simp add: E_def lexer_eval)
  show ?thesis
    by (simp add: tokenize_def new_Scanner_def readfirst_5 classifier_eval
                  a0 a3 n4 n5 n8 n9 n10 n13 n14 n15 n18 n19 n20 e3)
qed

lemma sosentries_end: "sosentries toks sec_end (sec_end, es, b) = Inr (sec_end, es, b)"
  by (subst sosentries.simps) simp

lemma sosentries_entry:
  "it \<noteq> sec_end \<Longrightarrow> in_range toks sec_end it \<Longrightarrow> toks ! it = CONID n \<Longrightarrow>
   it + 1 \<noteq> sec_end \<Longrightarrow> toks ! (it + 1) = CONSTVAL w \<Longrightarrow>
   sosentries toks sec_end (it, es, b)
     = sosentries toks sec_end (it + 2, es @ [(n, w)], snd (getvarbyname b n))"
  by (subst sosentries.simps) (simp add: Let_def case_prod_beta)

lemma sossec_loop_end: "sossec_loop toks sec_end (sec_end, b) = Inr (sec_end, b)"
  by (subst sossec_loop.simps) simp

lemma sossec_loop_step:
  "it \<noteq> sec_end \<Longrightarrow> in_range toks sec_end it \<Longrightarrow> processsos toks sec_end it b = Inr s \<Longrightarrow>
   sossec_loop toks sec_end (it, b) = sossec_loop toks sec_end s"
  by (subst sossec_loop.simps) simp

lemma getvarbyname_soss: "soss (model (snd (getvarbyname b n))) = soss (model b)"
  by (simp add: getvarbyname_def split: option.splits)

lemma getvarbyname_registers: "b_variables (snd (getvarbyname b n)) n \<noteq> None"
  by (simp add: getvarbyname_def split: option.splits)

lemma getvarbyname_keeps:
  "b_variables b m \<noteq> None \<Longrightarrow> b_variables (snd (getvarbyname b n)) m \<noteq> None"
  by (simp add: getvarbyname_def split: option.splits)

lemma processsos_two_entries:
  assumes t: "toks ! it = CONID n" "toks ! (it + 1) = SOSTYPE ty"
      "toks ! (it + 2) = CONID x1" "toks ! (it + 3) = CONSTVAL w1"
      "toks ! (it + 4) = CONID x2" "toks ! (it + 5) = CONSTVAL w2"
    and r: "sec_end = it + 6" "sec_end \<le> length toks"
  shows "processsos toks sec_end it b
       = Inr (sec_end,
              (snd (getvarbyname (snd (getvarbyname b x1)) x2))
                \<lparr>model := (model (snd (getvarbyname (snd (getvarbyname b x1)) x2)))
                   \<lparr>soss := soss (model b)
                      @ [\<lparr>sos_name = n, sos_type = (if ty = SOS1 then 1 else 2),
                          sos_entries = [(x1, w1), (x2, w2)]\<rparr>]\<rparr>\<rparr>)"
proof -
  have e1: "sosentries toks sec_end (it + 2, [], b)
      = sosentries toks sec_end (it + 4, [(x1, w1)], snd (getvarbyname b x1))"
    using sosentries_entry [of "it + 2" sec_end toks x1 w1 "[]" b] t r
    by (simp add: in_range_def eval_nat_numeral)
  have e2: "sosentries toks sec_end (it + 4, [(x1, w1)], snd (getvarbyname b x1))
      = sosentries toks sec_end
          (it + 6, [(x1, w1), (x2, w2)], snd (getvarbyname (snd (getvarbyname b x1)) x2))"
    using sosentries_entry [of "it + 4" sec_end toks x2 w2 "[(x1, w1)]" "snd (getvarbyname b x1)"]
      t r
    by (simp add: in_range_def eval_nat_numeral)
  have es: "sosentries toks sec_end (it + 1 + 1, [], b)
      = Inr (sec_end, [(x1, w1), (x2, w2)], snd (getvarbyname (snd (getvarbyname b x1)) x2))"
    using e1 e2 r(1) sosentries_end [of toks sec_end] by (simp add: eval_nat_numeral)
  show ?thesis
    unfolding processsos_def Let_def es
    using t(1,2) r by (simp add: getvarbyname_soss)
qed

text \<open>
  C8.  Whatever \<^verbatim>\<open>strtod\<close> is, as long as it converts the \<^verbatim>\<open>1\<close> and the \<^verbatim>\<open>2\<close> of the text
  \<^verbatim>\<open>setA: S1:: x1:1 x2:2\<close> to 1.0 and 2.0 with one character each and converts nothing
  where an identifier starts: the text is turned into a label \<^verbatim>\<open>setA\<close>, the set type 1,
  and the labels \<^verbatim>\<open>x1\<close> and \<^verbatim>\<open>x2\<close> each followed by its number.  A special-ordered-set
  section that holds these tokens is processed without error and appends exactly one
  set to the model: its name is \<^verbatim>\<open>setA\<close>, its type 1, its entries \<open>(x1, 1.0)\<close> and
  \<open>(x2, 2.0)\<close> in this order, and \<^verbatim>\<open>x1\<close> and \<^verbatim>\<open>x2\<close> are variables of the builder afterwards.
  A file that consists of the lines \<^verbatim>\<open>sos\<close>, this text and \<^verbatim>\<open>end\<close> is read as the model
  with the variables \<^verbatim>\<open>x1\<close> and \<^verbatim>\<open>x2\<close> and this set alone.
\<close>

theorem sos_section_from_text:
  assumes "snd (strtod ''sos'') = 0"
    and "snd (strtod ''setA: S1:: x1:1 x2:2'') = 0"
    and "snd (strtod ''S1:: x1:1 x2:2'') = 0"
    and "snd (strtod ''x1:1 x2:2'') = 0"
    and "strtod ''1 x2:2'' = (DVal 1, 1)"
    and "snd (strtod ''x2:2'') = 0"
    and "strtod ''2'' = (DVal 2, 1)"
    and "snd (strtod ''end'') = 0"
  shows "tokenize strtod ''setA: S1:: x1:1 x2:2''
           = Inr [CONID ''setA'', SOSTYPE SOS1, CONID ''x1'', CONSTVAL (DVal 1), CONID ''x2'',
                  CONSTVAL (DVal 2)]
     \<and> (\<forall>r begin.
           sectiontokens r SOS = Some (begin, begin + 6)
           \<and> begin + 6 \<le> length (processedtokens r)
           \<and> Inr (take 6 (drop begin (processedtokens r))) = tokenize strtod ''setA: S1:: x1:1 x2:2''
           \<longrightarrow> (\<exists>r'. processsossec r = Inr r'
                  \<and> soss (model (builder r'))
                      = soss (model (builder r))
                        @ [\<lparr>sos_name = ''setA'', sos_type = 1,
                            sos_entries = [(''x1'', DVal 1), (''x2'', DVal 2)]\<rparr>]
                  \<and> b_variables (builder r') ''x1'' \<noteq> None
                  \<and> b_variables (builder r') ''x2'' \<noteq> None))
     \<and> (\<forall>fadd sns.
           read strtod fadd sns
             (''sos\<newline>setA: S1:: x1:1 x2:2\<newline>end'')
           = Inr \<lparr>objective = \<lparr>linterms = [], quadterms = [], offset = DVal 0, expr_name = []\<rparr>,
                  sense = sns, constraints = [], variables = [''x1'', ''x2''],
                  soss = [\<lparr>sos_name = ''setA'', sos_type = 1,
                           sos_entries = [(''x1'', DVal 1), (''x2'', DVal 2)]\<rparr>]\<rparr>)"
proof (intro conjI allI impI)
  show tk: "tokenize strtod ''setA: S1:: x1:1 x2:2''
           = Inr [CONID ''setA'', SOSTYPE SOS1, CONID ''x1'', CONSTVAL (DVal 1), CONID ''x2'',
                  CONSTVAL (DVal 2)]"
    by (rule tokenize_sos_text [OF assms(2-7)])
  fix r :: Reader and it :: nat
  assume a: "sectiontokens r SOS = Some (it, it + 6)
           \<and> it + 6 \<le> length (processedtokens r)
           \<and> Inr (take 6 (drop it (processedtokens r))) = tokenize strtod ''setA: S1:: x1:1 x2:2''"
  let ?toks = "processedtokens r"
  from a tk have tdr: "take 6 (drop it ?toks)
      = [CONID ''setA'', SOSTYPE SOS1, CONID ''x1'', CONSTVAL (DVal 1), CONID ''x2'',
         CONSTVAL (DVal 2)]" by simp
  note nth = nth_of_take_drop [OF tdr]
  have t: "?toks ! it = CONID ''setA''" "?toks ! (it + 1) = SOSTYPE SOS1"
      "?toks ! (it + 2) = CONID ''x1''" "?toks ! (it + 3) = CONSTVAL (DVal 1)"
      "?toks ! (it + 4) = CONID ''x2''" "?toks ! (it + 5) = CONSTVAL (DVal 2)"
    using nth [of 0] nth [of 1] nth [of 2] nth [of 3] nth [of 4] nth [of 5] by simp_all
  define b' where "b' = (snd (getvarbyname (snd (getvarbyname (builder r) ''x1'')) ''x2''))
                \<lparr>model := (model (snd (getvarbyname (snd (getvarbyname (builder r) ''x1'')) ''x2'')))
                   \<lparr>soss := soss (model (builder r))
                      @ [\<lparr>sos_name = ''setA'', sos_type = 1,
                          sos_entries = [(''x1'', DVal 1), (''x2'', DVal 2)]\<rparr>]\<rparr>\<rparr>"
  from a have len: "it + 6 \<le> length ?toks" by simp
  have ps: "processsos ?toks (it + 6) it (builder r) = Inr (it + 6, b')"
    using processsos_two_entries [OF t refl len, of "builder r"] by (simp add: b'_def)
  have "sossec_loop ?toks (it + 6) (it, builder r) = sossec_loop ?toks (it + 6) (it + 6, b')"
    using len by (intro sossec_loop_step ps) (simp_all add: in_range_def)
  then have loop: "sossec_loop ?toks (it + 6) (it, builder r) = Inr (it + 6, b')"
    by (simp add: sossec_loop_end)
  from a have sec: "sectiontokens r SOS = Some (it, it + 6)" by simp
  have res: "processsossec r
      = Inr (r\<lparr>sectiontokens := set_first (sectiontokens r) SOS (it + 6), builder := b'\<rparr>)"
    using sec loop by (simp add: processsossec_def with_section_def entry_def)
  have v1: "b_variables b' ''x1'' \<noteq> None"
    by (simp add: b'_def getvarbyname_keeps getvarbyname_registers)
  have v2: "b_variables b' ''x2'' \<noteq> None"
    by (simp add: b'_def getvarbyname_registers)
  have s: "soss (model b') = soss (model (builder r))
      @ [\<lparr>sos_name = ''setA'', sos_type = 1,
          sos_entries = [(''x1'', DVal 1), (''x2'', DVal 2)]\<rparr>]"
    by (simp add: b'_def)
  from res v1 v2 s
  show "\<exists>r'. processsossec r = Inr r'
          \<and> soss (model (builder r'))
              = soss (model (builder r))
                @ [\<lparr>sos_name = ''setA'', sos_type = 1,
                    sos_entries = [(''x1'', DVal 1), (''x2'', DVal 2)]\<rparr>]
          \<and> b_variables (builder r') ''x1'' \<noteq> None
          \<and> b_variables (builder r') ''x2'' \<noteq> None"
    by simp
next
  fix fadd :: addition and sns :: ObjectiveSense
  let ?toks = "[SECID SOS, CONID ''setA'', SOSTYPE SOS1, CONID ''x1'', CONSTVAL (DVal 1),
                CONID ''x2'', CONSTVAL (DVal 2), SECID END]"
  have sp: "splittokens ?toks = Inr [SOS \<mapsto> (1, 7)]"
    by (simp add: splittokens_def splitloop.simps set_first_def set_second_def entry_def
          eval_nat_numeral)
  have rt: "read_tokens fadd sns ?toks
      = Inr \<lparr>objective = \<lparr>linterms = [], quadterms = [], offset = DVal 0, expr_name = []\<rparr>,
             sense = sns, constraints = [], variables = [''x1'', ''x2''],
             soss = [\<lparr>sos_name = ''setA'', sos_type = 1,
                      sos_entries = [(''x1'', DVal 1), (''x2'', DVal 2)]\<rparr>]\<rparr>"
    by (simp add: read_tokens_def and_then_def sp processsections_def
          processnonesec_def processobjsec_def processconsec_def processboundssec_def
          processgensec_def processbinsec_def processsemisec_def processsossec_def
          processendsec_def with_section_def entry_def set_first_def
          sossec_loop.simps processsos_def sosentries.simps in_range_def getvarbyname_def
          new_Builder_def new_Expression_def new_Variable_def Let_def)
  show "read strtod fadd sns
          (''sos\<newline>setA: S1:: x1:1 x2:2\<newline>end'')
        = Inr \<lparr>objective = \<lparr>linterms = [], quadterms = [], offset = DVal 0, expr_name = []\<rparr>,
               sense = sns, constraints = [], variables = [''x1'', ''x2''],
               soss = [\<lparr>sos_name = ''setA'', sos_type = 1,
                        sos_entries = [(''x1'', DVal 1), (''x2'', DVal 2)]\<rparr>]\<rparr>"
    unfolding read_def tokenize_sos_file [OF assms] by (simp add: and_then_def rt)
qed

theorem sos_section_from_text_witness:
  "tokenize strtod_digits ''setA: S1:: x1:1 x2:2''
     = Inr [CONID ''setA'', SOSTYPE SOS1, CONID ''x1'', CONSTVAL (DVal 1), CONID ''x2'',
            CONSTVAL (DVal 2)]
   \<and> (\<exists>r'. processsossec
              \<lparr>processedtokens = [SECID SOS, CONID ''setA'', SOSTYPE SOS1, CONID ''x1'',
                                  CONSTVAL (DVal 1), CONID ''x2'', CONSTVAL (DVal 2), SECID END],
               sectiontokens = [SOS \<mapsto> (1, 7)], builder = new_Builder SenseMIN\<rparr> = Inr r'
          \<and> soss (model (builder r'))
              = [\<lparr>sos_name = ''setA'', sos_type = 1,
                  sos_entries = [(''x1'', DVal 1), (''x2'', DVal 2)]\<rparr>])
   \<and> (\<forall>fadd. read strtod_digits fadd SenseMIN ''sos\<newline>setA: S1:: x1:1 x2:2\<newline>end''
          = Inr \<lparr>objective = \<lparr>linterms = [], quadterms = [], offset = DVal 0, expr_name = []\<rparr>,
                 sense = SenseMIN, constraints = [], variables = [''x1'', ''x2''],
                 soss = [\<lparr>sos_name = ''setA'', sos_type = 1,
                          sos_entries = [(''x1'', DVal 1), (''x2'', DVal 2)]\<rparr>]\<rparr>)"
proof -
  let ?r = "\<lparr>processedtokens = [SECID SOS, CONID ''setA'', SOSTYPE SOS1, CONID ''x1'',
                                  CONSTVAL (DVal 1), CONID ''x2'', CONSTVAL (DVal 2), SECID END],
               sectiontokens = [SOS \<mapsto> (1, 7)], builder = new_Builder SenseMIN\<rparr>"
  have conv: "snd (strtod_digits ''sos'') = 0"
    "snd (strtod_digits ''setA: S1:: x1:1 x2:2'') = 0"
    "snd (strtod_digits ''S1:: x1:1 x2:2'') = 0"
    "snd (strtod_digits ''x1:1 x2:2'') = 0"
    "strtod_digits ''1 x2:2'' = (DVal 1, 1)"
    "snd (strtod_digits ''x2:2'') = 0"
    "strtod_digits ''2'' = (DVal 2, 1)"
    "snd (strtod_digits ''end'') = 0"
    by (simp_all add: strtod_digits_def is_digit_def decimal_def)
  note inst = sos_section_from_text [of strtod_digits, OF conv]
  from inst have tk: "tokenize strtod_digits ''setA: S1:: x1:1 x2:2''
     = Inr [CONID ''setA'', SOSTYPE SOS1, CONID ''x1'', CONSTVAL (DVal 1), CONID ''x2'',
            CONSTVAL (DVal 2)]"
    by (rule conjunct1)
  from inst have sec: "\<forall>r begin.
           sectiontokens r SOS = Some (begin, begin + 6)
           \<and> begin + 6 \<le> length (processedtokens r)
           \<and> Inr (take 6 (drop begin (processedtokens r)))
               = tokenize strtod_digits ''setA: S1:: x1:1 x2:2''
           \<longrightarrow> (\<exists>r'. processsossec r = Inr r'
                  \<and> soss (model (builder r'))
                      = soss (model (builder r))
                        @ [\<lparr>sos_name = ''setA'', sos_type = 1,
                            sos_entries = [(''x1'', DVal 1), (''x2'', DVal 2)]\<rparr>]
                  \<and> b_variables (builder r') ''x1'' \<noteq> None
                  \<and> b_variables (builder r') ''x2'' \<noteq> None)"
    by (rule conjunct2 [THEN conjunct1])
  from inst have rd: "\<forall>fadd sns.
           read strtod_digits fadd sns ''sos\<newline>setA: S1:: x1:1 x2:2\<newline>end''
           = Inr \<lparr>objective = \<lparr>linterms = [], quadterms = [], offset = DVal 0, expr_name = []\<rparr>,
                  sense = sns, constraints = [], variables = [''x1'', ''x2''],
                  soss = [\<lparr>sos_name = ''setA'', sos_type = 1,
                           sos_entries = [(''x1'', DVal 1), (''x2'', DVal 2)]\<rparr>]\<rparr>"
    by (rule conjunct2 [THEN conjunct2])
  have "\<exists>r'. processsossec ?r = Inr r'
          \<and> soss (model (builder r'))
              = [\<lparr>sos_name = ''setA'', sos_type = 1,
                  sos_entries = [(''x1'', DVal 1), (''x2'', DVal 2)]\<rparr>]"
    using sec [rule_format, of ?r 1] tk by (auto simp: new_Builder_def)
  with tk rd show ?thesis by blast
qed

end
